theory Spec2Isabelle
  imports Main "HOL-Library.Char_ord"
begin

section \<open>JavaScript values\<close>

text \<open>
  The logger of \<^verbatim>\<open>statisticsLogger.ts\<close> keeps untyped JavaScript values in its queue: what
  \<^verbatim>\<open>JSON.parse\<close> returns from a backlog file is pushed after a cast, with no validation.
  Values are therefore modelled as such. Numbers are integers (\<^verbatim>\<open>Date.now()\<close> returns one);
  a string is the list of the bytes of its UTF-8 encoding; an object is the list of its own
  enumerable properties in insertion order. \<open>JErr\<close> is an \<^verbatim>\<open>Error\<close> instance, the value a
  \<^verbatim>\<open>catch\<close> clause receives: its message, which is not enumerable, and its own enumerable
  properties.
\<close>

datatype jsval =
    JUndefined
  | JNull
  | JBool bool
  | JNum int
  | JStr string
  | JArr "jsval list"
  | JObj "(string \<times> jsval) list"
  | JErr string "(string \<times> jsval) list"

type_synonym props = "(string \<times> jsval) list"

text \<open>Truthiness, as \<^verbatim>\<open>if (x)\<close>, \<^verbatim>\<open>!x\<close> and \<^verbatim>\<open>x && y\<close> test it.\<close>

fun truthy :: "jsval \<Rightarrow> bool" where
  "truthy JUndefined = False"
| "truthy JNull = False"
| "truthy (JBool b) = b"
| "truthy (JNum n) = (n \<noteq> 0)"
| "truthy (JStr s) = (s \<noteq> [])"
| "truthy _ = True"

text \<open>
  Reading a property (\<^verbatim>\<open>o.k\<close>, \<open>undefined\<close> when absent), writing one (\<^verbatim>\<open>o.k = v\<close>: in place
  when the key exists, appended otherwise), and \<^verbatim>\<open>Object.assign(target, source)\<close>, which
  writes every property of the source into the target object itself. The order of the
  properties shows in no property read.
\<close>

definition obj_get :: "props \<Rightarrow> string \<Rightarrow> jsval" where
  "obj_get ps k = (case map_of ps k of None \<Rightarrow> JUndefined | Some v \<Rightarrow> v)"

fun obj_set :: "(string \<times> jsval) list \<Rightarrow> string \<Rightarrow> jsval \<Rightarrow> (string \<times> jsval) list" where
  "obj_set [] k v = [(k, v)]"
| "obj_set ((k', v') # ps) k v = (if k' = k then (k, v) # ps else (k', v') # obj_set ps k v)"

definition obj_assign :: "props \<Rightarrow> props \<Rightarrow> props" where
  "obj_assign target source = foldl (\<lambda>t kv. obj_set t (fst kv) (snd kv)) target source"

fun get_prop :: "jsval \<Rightarrow> string \<Rightarrow> jsval" where
  "get_prop (JObj ps) k = obj_get ps k"
| "get_prop (JErr m ps) k = obj_get ps k"
| "get_prop _ k = JUndefined"

section \<open>The platform's JSON codec\<close>

text \<open>
  \<^verbatim>\<open>JSON.stringify\<close> and \<^verbatim>\<open>JSON.parse\<close> on the values above. The text is a byte string.
  \<^verbatim>\<open>JSON.stringify\<close> returns \<open>undefined\<close> (here \<open>None\<close>) for \<open>undefined\<close>, leaves out the
  properties whose value is \<open>undefined\<close>, writes \<open>null\<close> for such an array element, and
  writes an \<^verbatim>\<open>Error\<close> as the object of its enumerable properties. \<^verbatim>\<open>JSON.parse\<close> raises
  \<^verbatim>\<open>SyntaxError\<close> (here \<open>None\<close>) on malformed text. Numerals with a fraction or an exponent
  denote floating-point numbers and are outside the modelled fragment: the parser rejects
  them.
\<close>

definition hexdigit :: "nat \<Rightarrow> char" where
  "hexdigit n = (if n < 10 then char_of (48 + n) else char_of (87 + n))"

definition hexval :: "char \<Rightarrow> nat option" where
  "hexval c = (let n = (of_char c :: nat) in
     if 48 \<le> n \<and> n \<le> 57 then Some (n - 48)
     else if 97 \<le> n \<and> n \<le> 102 then Some (n - 87)
     else if 65 \<le> n \<and> n \<le> 70 then Some (n - 55)
     else None)"

text \<open>Decimal digits of a natural number, most significant first.\<close>

fun digits :: "nat \<Rightarrow> string" where
  "digits n = (if n < 10 then [char_of (48 + n)] else digits (n div 10) @ [char_of (48 + n mod 10)])"

text \<open>The escapes \<^verbatim>\<open>JSON.stringify\<close> writes inside a string literal.\<close>

definition quote_char :: "char \<Rightarrow> string" where
  "quote_char c =
     (if c = CHR 0x22 then [CHR 0x5C, CHR 0x22]
      else if c = CHR 0x5C then [CHR 0x5C, CHR 0x5C]
      else if c = CHR 0x08 then [CHR 0x5C, CHR ''b'']
      else if c = CHR 0x09 then [CHR 0x5C, CHR ''t'']
      else if c = CHR 0x0A then [CHR 0x5C, CHR ''n'']
      else if c = CHR 0x0C then [CHR 0x5C, CHR ''f'']
      else if c = CHR 0x0D then [CHR 0x5C, CHR ''r'']
      else if (of_char c :: nat) < 32
        then [CHR 0x5C, CHR ''u'', CHR ''0'', CHR ''0'', hexdigit (of_char c div 16), hexdigit (of_char c mod 16)]
      else [c])"

definition quote :: "string \<Rightarrow> string" where
  "quote s = CHR 0x22 # concat (map quote_char s) @ [CHR 0x22]"

definition show_int :: "int \<Rightarrow> string" where
  "show_int i = (if i < 0 then CHR ''-'' # digits (nat (- i)) else digits (nat i))"

fun join_comma :: "string list \<Rightarrow> string" where
  "join_comma [] = []"
| "join_comma [x] = x"
| "join_comma (x # y # zs) = x @ CHR '','' # join_comma (y # zs)"

fun JSON_stringify :: "jsval \<Rightarrow> string option"
  and stringify_elements :: "jsval list \<Rightarrow> string list"
  and stringify_members :: "(string \<times> jsval) list \<Rightarrow> string list" where
  "JSON_stringify JUndefined = None"
| "JSON_stringify JNull = Some ''null''"
| "JSON_stringify (JBool b) = Some (if b then ''true'' else ''false'')"
| "JSON_stringify (JNum n) = Some (show_int n)"
| "JSON_stringify (JStr s) = Some (quote s)"
| "JSON_stringify (JArr xs) = Some (CHR ''['' # join_comma (stringify_elements xs) @ '']'')"
| "JSON_stringify (JObj ps) = Some (CHR ''{'' # join_comma (stringify_members ps) @ ''}'')"
| "JSON_stringify (JErr m ps) = Some (CHR ''{'' # join_comma (stringify_members ps) @ ''}'')"
| "stringify_elements [] = []"
| "stringify_elements (x # xs) =
     (case JSON_stringify x of None \<Rightarrow> ''null'' | Some s \<Rightarrow> s) # stringify_elements xs"
| "stringify_members [] = []"
| "stringify_members ((k, v) # ps) =
     (case JSON_stringify v of None \<Rightarrow> stringify_members ps
      | Some s \<Rightarrow> (quote k @ CHR '':'' # s) # stringify_members ps)"

text \<open>
  The parser is a recursive descent on the text. \<open>parse_value\<close> takes fuel, one unit for
  every nesting of a value or a list element; \<open>JSON_parse\<close> gives it more than the length
  of the text, which no text can use up.
\<close>

definition is_ws :: "char \<Rightarrow> bool" where
  "is_ws c = (c = CHR '' '' \<or> c = CHR 0x09 \<or> c = CHR 0x0A \<or> c = CHR 0x0D)"

definition is_digit :: "char \<Rightarrow> bool" where
  "is_digit c = (48 \<le> (of_char c :: nat) \<and> (of_char c :: nat) \<le> 57)"

definition skip_ws :: "string \<Rightarrow> string" where
  "skip_ws cs = dropWhile is_ws cs"

definition utf8 :: "nat \<Rightarrow> string" where
  "utf8 n =
     (if n < 0x80 then [char_of n]
      else if n < 0x800 then [char_of (0xC0 + n div 64), char_of (0x80 + n mod 64)]
      else [char_of (0xE0 + n div 4096), char_of (0x80 + (n div 64) mod 64), char_of (0x80 + n mod 64)])"

text \<open>
  The body of a string literal, after its opening quote: a scanner with three modes, in plain
  text, after a backslash, and inside the four hexadecimal digits of \<^verbatim>\<open>\u\<close>.
\<close>

datatype scan = Plain | Escape | Hex nat nat

fun unescape :: "char \<Rightarrow> char option" where
  "unescape e =
     (if e = CHR 0x22 \<or> e = CHR 0x5C \<or> e = CHR ''/'' then Some e
      else if e = CHR ''b'' then Some (CHR 0x08)
      else if e = CHR ''f'' then Some (CHR 0x0C)
      else if e = CHR ''n'' then Some (CHR 0x0A)
      else if e = CHR ''r'' then Some (CHR 0x0D)
      else if e = CHR ''t'' then Some (CHR 0x09)
      else None)"

fun parse_chars :: "scan \<Rightarrow> string \<Rightarrow> string \<Rightarrow> (string \<times> string) option" where
  "parse_chars m acc [] = None"
| "parse_chars Plain acc (c # cs) =
     (if c = CHR 0x22 then Some (acc, cs)
      else if c = CHR 0x5C then parse_chars Escape acc cs
      else if (of_char c :: nat) < 32 then None
      else parse_chars Plain (acc @ [c]) cs)"
| "parse_chars Escape acc (c # cs) =
     (if c = CHR ''u'' then parse_chars (Hex 0 0) acc cs
      else (case unescape c of None \<Rightarrow> None | Some d \<Rightarrow> parse_chars Plain (acc @ [d]) cs))"
| "parse_chars (Hex k v) acc (c # cs) =
     (case hexval c of
        None \<Rightarrow> None
      | Some d \<Rightarrow>
         if k = 3 then parse_chars Plain (acc @ utf8 (v * 16 + d)) cs
         else parse_chars (Hex (Suc k) (v * 16 + d)) acc cs)"

definition digit_val :: "char \<Rightarrow> nat" where
  "digit_val c = of_char c - 48"

definition parse_nat :: "string \<Rightarrow> (nat \<times> string) option" where
  "parse_nat cs =
     (let ds = takeWhile is_digit cs; r = dropWhile is_digit cs in
      if ds = [] then None
      else if hd ds = CHR ''0'' \<and> tl ds \<noteq> [] then Some (0, tl ds @ r)
      else Some (foldl (\<lambda>a c. 10 * a + digit_val c) 0 ds, r))"

definition no_fraction :: "string \<Rightarrow> bool" where
  "no_fraction r = (case r of [] \<Rightarrow> True | c # _ \<Rightarrow> c \<noteq> CHR ''.'' \<and> c \<noteq> CHR ''e'' \<and> c \<noteq> CHR ''E'')"

definition parse_number :: "string \<Rightarrow> (jsval \<times> string) option" where
  "parse_number cs =
     (case cs of
        [] \<Rightarrow> None
      | c # r \<Rightarrow>
         if c = CHR ''-'' then
           (case parse_nat r of
              None \<Rightarrow> None
            | Some (n, r') \<Rightarrow> if no_fraction r' then Some (JNum (- int n), r') else None)
         else
           (case parse_nat cs of
              None \<Rightarrow> None
            | Some (n, r') \<Rightarrow> if no_fraction r' then Some (JNum (int n), r') else None))"

fun parse_value :: "nat \<Rightarrow> string \<Rightarrow> (jsval \<times> string) option"
  and parse_elements :: "nat \<Rightarrow> jsval list \<Rightarrow> string \<Rightarrow> (jsval \<times> string) option"
  and parse_members :: "nat \<Rightarrow> (string \<times> jsval) list \<Rightarrow> string \<Rightarrow> (jsval \<times> string) option" where
  "parse_value 0 cs = None"
| "parse_value (Suc n) cs =
     (case skip_ws cs of
        [] \<Rightarrow> None
      | c # r \<Rightarrow>
         if c = CHR 0x22 then
           (case parse_chars Plain [] r of None \<Rightarrow> None | Some (s, r') \<Rightarrow> Some (JStr s, r'))
         else if c = CHR ''['' then
           (case skip_ws r of
              [] \<Rightarrow> None
            | c' # r' \<Rightarrow> if c' = CHR '']'' then Some (JArr [], r') else parse_elements n [] r)
         else if c = CHR ''{'' then
           (case skip_ws r of
              [] \<Rightarrow> None
            | c' # r' \<Rightarrow> if c' = CHR ''}'' then Some (JObj [], r') else parse_members n [] r)
         else if take 4 (c # r) = ''null'' then Some (JNull, drop 3 r)
         else if take 4 (c # r) = ''true'' then Some (JBool True, drop 3 r)
         else if take 5 (c # r) = ''false'' then Some (JBool False, drop 4 r)
         else parse_number (c # r))"
| "parse_elements 0 acc cs = None"
| "parse_elements (Suc n) acc cs =
     (case parse_value n cs of
        None \<Rightarrow> None
      | Some (v, r) \<Rightarrow>
         (case skip_ws r of
            [] \<Rightarrow> None
          | c # r' \<Rightarrow>
             if c = CHR '','' then parse_elements n (acc @ [v]) r'
             else if c = CHR '']'' then Some (JArr (acc @ [v]), r')
             else None))"
| "parse_members 0 acc cs = None"
| "parse_members (Suc n) acc cs =
     (case skip_ws cs of
        [] \<Rightarrow> None
      | q # r \<Rightarrow>
         if q \<noteq> CHR 0x22 then None
         else
           (case parse_chars Plain [] r of
              None \<Rightarrow> None
            | Some (k, r1) \<Rightarrow>
               (case skip_ws r1 of
                  [] \<Rightarrow> None
                | c # r2 \<Rightarrow>
                   if c \<noteq> CHR '':'' then None
                   else
                     (case parse_value n r2 of
                        None \<Rightarrow> None
                      | Some (v, r3) \<Rightarrow>
                         (case skip_ws r3 of
                            [] \<Rightarrow> None
                          | c' # r4 \<Rightarrow>
                             if c' = CHR '','' then parse_members n (obj_set acc k v) r4
                             else if c' = CHR ''}'' then Some (JObj (obj_set acc k v), r4)
                             else None)))))"

definition JSON_parse :: "string \<Rightarrow> jsval option" where
  "JSON_parse s =
     (case parse_value (Suc (length s)) s of
        None \<Rightarrow> None
      | Some (v, r) \<Rightarrow> if skip_ws r = [] then Some v else None)"


subsection \<open>What a round trip through JSON keeps\<close>

text \<open>
  \<open>json_image v\<close> is the value that parsing the text of \<open>v\<close> gives back: \<open>v\<close> without the
  properties that are \<open>undefined\<close>, with \<open>null\<close> for the array elements that are, and with a
  plain object for an \<^verbatim>\<open>Error\<close>. A value is well formed when no object in it has two
  properties of the same name, as in any JavaScript object.
\<close>

fun json_image :: "jsval \<Rightarrow> jsval"
  and json_elements :: "jsval list \<Rightarrow> jsval list"
  and json_members :: "props \<Rightarrow> props" where
  "json_image JUndefined = JUndefined"
| "json_image JNull = JNull"
| "json_image (JBool b) = JBool b"
| "json_image (JNum n) = JNum n"
| "json_image (JStr s) = JStr s"
| "json_image (JArr xs) = JArr (json_elements xs)"
| "json_image (JObj ps) = JObj (json_members ps)"
| "json_image (JErr m ps) = JObj (json_members ps)"
| "json_elements [] = []"
| "json_elements (x # xs) = (if x = JUndefined then JNull else json_image x) # json_elements xs"
| "json_members [] = []"
| "json_members ((k, v) # ps) =
     (if v = JUndefined then json_members ps else (k, json_image v) # json_members ps)"

fun well_formed :: "jsval \<Rightarrow> bool"
  and wf_elements :: "jsval list \<Rightarrow> bool"
  and wf_members :: "props \<Rightarrow> bool" where
  "well_formed (JArr xs) = wf_elements xs"
| "well_formed (JObj ps) = (distinct (map fst ps) \<and> wf_members ps)"
| "well_formed (JErr m ps) = (distinct (map fst ps) \<and> wf_members ps)"
| "well_formed JUndefined = True"
| "well_formed JNull = True"
| "well_formed (JBool b) = True"
| "well_formed (JNum n) = True"
| "well_formed (JStr s) = True"
| "wf_elements [] = True"
| "wf_elements (x # xs) = (well_formed x \<and> wf_elements xs)"
| "wf_members [] = True"
| "wf_members ((k, v) # ps) = (well_formed v \<and> wf_members ps)"

text \<open>
  The text of an array element, and the value it parses to. A value in the text ends at a
  boundary, a comma or a closing bracket or the end of the text, and starts with one of a few
  characters.
\<close>

definition element_text :: "jsval \<Rightarrow> string" where
  "element_text x = (case JSON_stringify x of None \<Rightarrow> ''null'' | Some s \<Rightarrow> s)"

definition element_image :: "jsval \<Rightarrow> jsval" where
  "element_image x = (if x = JUndefined then JNull else json_image x)"

definition boundary :: "string \<Rightarrow> bool" where
  "boundary rest = (case rest of [] \<Rightarrow> True | c # cs \<Rightarrow> c = CHR '','' \<or> c = CHR '']'' \<or> c = CHR ''}'')"

definition starter :: "char \<Rightarrow> bool" where
  "starter c = (c = CHR 0x22 \<or> c = CHR ''['' \<or> c = CHR ''{'' \<or> c = CHR ''n'' \<or> c = CHR ''t''
                \<or> c = CHR ''f'' \<or> c = CHR ''-'' \<or> is_digit c)"

section \<open>The environment: file system, timers, clock, network\<close>

text \<open>
  The file system holds what the logger can see of it: the node at the path of the backlog
  directory and its entries. An entry is a regular file with its content, a file that cannot
  be opened (no permission), or a subdirectory.
\<close>

datatype entry = File string | Locked | SubDir

datatype node = Missing | NotDir | Dir "(string \<times> entry) list"

text \<open>
  A system error as Node.js raises it, with the enumerable properties \<^verbatim>\<open>errno\<close> (the
  Linux numbers), \<^verbatim>\<open>code\<close>, \<^verbatim>\<open>syscall\<close> and \<^verbatim>\<open>path\<close>.
\<close>

definition errno :: "string \<Rightarrow> int" where
  "errno code =
     (if code = ''ENOENT'' then - 2 else if code = ''EACCES'' then - 13
      else if code = ''EEXIST'' then - 17 else if code = ''ENOTDIR'' then - 20
      else if code = ''EISDIR'' then - 21 else - 1)"

definition path_join :: "string \<Rightarrow> string \<Rightarrow> string" where
  "path_join dir name = (if dir \<noteq> [] \<and> last dir = CHR ''/'' then dir @ name else dir @ CHR ''/'' # name)"

definition system_error :: "string \<Rightarrow> string \<Rightarrow> string \<Rightarrow> string \<Rightarrow> jsval" where
  "system_error code syscall dir name =
     JErr code [(''errno'', JNum (errno code)), (''code'', JStr code), (''syscall'', JStr syscall),
                (''path'', JStr (path_join dir name))]"

definition SyntaxError :: jsval where
  "SyntaxError = JErr ''SyntaxError'' []"

definition TypeError :: jsval where
  "TypeError = JErr ''TypeError'' []"

text \<open>
  The file system calls that succeeded, the requests sent and the lines written to the
  console are recorded, in order, so that what an operation did not do can be stated.
\<close>

datatype io =
    EnsureDir string
  | Readdir string
  | ReadFile string string
  | Unlink string string
  | WriteFile string string string
  | HttpGet jsval props
  | ConsoleError "jsval list"

text \<open>
  A timer of \<^verbatim>\<open>setInterval\<close> is the callback it fires, here one of the logger's two, with the
  interval it was given.
\<close>

datatype timer = ProbeTimer jsval | DispatchTimer jsval

datatype obj_ref = Ref_defaultOptions

text \<open>
  The state: the module-level object \<^verbatim>\<open>defaultOptions\<close>, the fields of the single
  \<^verbatim>\<open>StatisticsLogger\<close> instance, and the environment. \<^verbatim>\<open>this.options\<close> is either
  \<open>undefined\<close> or a reference: \<^verbatim>\<open>Object.assign\<close> returns its target, so the only object it
  ever refers to is \<^verbatim>\<open>defaultOptions\<close> itself.
\<close>

record world =
  defaultOptions :: props
  options :: "obj_ref option"
  logQueue :: "jsval list"
  isInternetConnected :: bool
  lastInternetConnectedFlag :: bool
  connectionCheckInterval :: "nat option"
  queueCheckInterval :: "nat option"
  defaultLoggerInfo :: props
  timers :: "(nat \<times> timer) list"
  next_timer :: nat
  fs :: "string \<Rightarrow> node"
  trace :: "io list"

definition LOG_EXTENSION :: string where
  "LOG_EXTENSION = ''.ehl''"

text \<open>The state when the module has been loaded, on a host of the given operating system.\<close>

definition initial :: "string \<Rightarrow> (string \<Rightarrow> node) \<Rightarrow> world" where
  "initial osType disk =
     \<lparr> defaultOptions = [(''networkCheckInterval'', JNum 1000), (''logCheckInterval'', JNum 1000)],
       options = None,
       logQueue = [],
       isInternetConnected = True,
       lastInternetConnectedFlag = False,
       connectionCheckInterval = None,
       queueCheckInterval = None,
       defaultLoggerInfo = [(''osType'', JStr osType)],
       timers = [],
       next_timer = 1,
       fs = disk,
       trace = [] \<rparr>"

text \<open>\<^verbatim>\<open>this.options!.k\<close>: a \<^verbatim>\<open>TypeError\<close> (here \<open>None\<close>) when \<^verbatim>\<open>this.options\<close> is undefined.\<close>

definition option_get :: "world \<Rightarrow> string \<Rightarrow> jsval option" where
  "option_get w k =
     (case options w of None \<Rightarrow> None | Some Ref_defaultOptions \<Rightarrow> Some (obj_get (defaultOptions w) k))"

definition record_io :: "io \<Rightarrow> world \<Rightarrow> world" where
  "record_io x w = w\<lparr>trace := trace w @ [x]\<rparr>"

definition console_error :: "jsval list \<Rightarrow> world \<Rightarrow> world" where
  "console_error args w = record_io (ConsoleError args) w"

subsection \<open>Timers\<close>

text \<open>
  \<^verbatim>\<open>setInterval\<close> returns a fresh handle, a positive integer; \<^verbatim>\<open>clearInterval\<close> cancels the
  timer of that handle, and does nothing for \<open>undefined\<close> or a handle that is not active.
\<close>

definition setInterval :: "timer \<Rightarrow> world \<Rightarrow> nat \<times> world" where
  "setInterval t w =
     (next_timer w, w\<lparr>timers := timers w @ [(next_timer w, t)], next_timer := Suc (next_timer w)\<rparr>)"

definition clearInterval :: "nat option \<Rightarrow> world \<Rightarrow> world" where
  "clearInterval h w =
     (case h of None \<Rightarrow> w | Some i \<Rightarrow> w\<lparr>timers := filter (\<lambda>it. fst it \<noteq> i) (timers w)\<rparr>)"

definition truthy_handle :: "nat option \<Rightarrow> bool" where
  "truthy_handle h = (case h of None \<Rightarrow> False | Some i \<Rightarrow> i \<noteq> 0)"

subsection \<open>File system calls\<close>

text \<open>
  \<^verbatim>\<open>fs-extra\<close>'s calls on the backlog directory \<open>d\<close>. A call returns the error it raises
  (\<open>Inl\<close>) or its result.
\<close>

definition ensureDir :: "string \<Rightarrow> world \<Rightarrow> jsval + world" where
  "ensureDir d w =
     (case fs w d of
        Missing \<Rightarrow> Inr (record_io (EnsureDir d) (w\<lparr>fs := (fs w)(d := Dir [])\<rparr>))
      | Dir es \<Rightarrow> Inr (record_io (EnsureDir d) w)
      | NotDir \<Rightarrow> Inl (system_error ''EEXIST'' ''mkdir'' d []))"

definition readdir :: "string \<Rightarrow> world \<Rightarrow> jsval + string list \<times> world" where
  "readdir d w =
     (case fs w d of
        Missing \<Rightarrow> Inl (system_error ''ENOENT'' ''scandir'' d [])
      | NotDir \<Rightarrow> Inl (system_error ''ENOTDIR'' ''scandir'' d [])
      | Dir es \<Rightarrow> Inr (map fst es, record_io (Readdir d) w))"

definition readFile :: "string \<Rightarrow> string \<Rightarrow> world \<Rightarrow> jsval + string \<times> world" where
  "readFile d name w =
     (case fs w d of
        Missing \<Rightarrow> Inl (system_error ''ENOENT'' ''open'' d name)
      | NotDir \<Rightarrow> Inl (system_error ''ENOTDIR'' ''open'' d name)
      | Dir es \<Rightarrow>
         (case map_of es name of
            None \<Rightarrow> Inl (system_error ''ENOENT'' ''open'' d name)
          | Some Locked \<Rightarrow> Inl (system_error ''EACCES'' ''open'' d name)
          | Some SubDir \<Rightarrow> Inl (system_error ''EISDIR'' ''read'' d name)
          | Some (File c) \<Rightarrow> Inr (c, record_io (ReadFile d name) w)))"

definition unlink :: "string \<Rightarrow> string \<Rightarrow> world \<Rightarrow> jsval + world" where
  "unlink d name w =
     (case fs w d of
        Missing \<Rightarrow> Inl (system_error ''ENOENT'' ''unlink'' d name)
      | NotDir \<Rightarrow> Inl (system_error ''ENOTDIR'' ''unlink'' d name)
      | Dir es \<Rightarrow>
         (case map_of es name of
            None \<Rightarrow> Inl (system_error ''ENOENT'' ''unlink'' d name)
          | Some SubDir \<Rightarrow> Inl (system_error ''EISDIR'' ''unlink'' d name)
          | Some _ \<Rightarrow>
              Inr (record_io (Unlink d name)
                     (w\<lparr>fs := (fs w)(d := Dir (filter (\<lambda>e. fst e \<noteq> name) es))\<rparr>))))"

definition writeFile :: "string \<Rightarrow> string \<Rightarrow> string \<Rightarrow> world \<Rightarrow> jsval + world" where
  "writeFile d name content w =
     (case fs w d of
        Missing \<Rightarrow> Inl (system_error ''ENOENT'' ''open'' d name)
      | NotDir \<Rightarrow> Inl (system_error ''ENOTDIR'' ''open'' d name)
      | Dir es \<Rightarrow>
         (case map_of es name of
            None \<Rightarrow>
              Inr (record_io (WriteFile d name content)
                     (w\<lparr>fs := (fs w)(d := Dir (es @ [(name, File content)]))\<rparr>))
          | Some (File c) \<Rightarrow>
              Inr (record_io (WriteFile d name content)
                     (w\<lparr>fs := (fs w)(d := Dir (map (\<lambda>e. if fst e = name then (name, File content) else e) es))\<rparr>))
          | Some Locked \<Rightarrow> Inl (system_error ''EACCES'' ''open'' d name)
          | Some SubDir \<Rightarrow> Inl (system_error ''EISDIR'' ''open'' d name)))"

subsection \<open>Path names and random names\<close>

text \<open>
  \<^verbatim>\<open>path.extname\<close> on a file name (\<^verbatim>\<open>readdir\<close> returns names without separators): from
  the last dot to the end; empty when there is no dot, when the last dot is the first
  character, and for the name \<^verbatim>\<open>..\<close>. \<^verbatim>\<open>toLowerCase\<close> on the bytes of a string maps the
  letters A to Z. \<^verbatim>\<open>toString('hex')\<close> writes two digits for each byte.
\<close>

definition extname :: "string \<Rightarrow> string" where
  "extname name =
     (if CHR ''.'' \<notin> set name then []
      else if tl (dropWhile (\<lambda>c. c \<noteq> CHR ''.'') (rev name)) = [] then []
      else if name = ''..'' then []
      else CHR ''.'' # rev (takeWhile (\<lambda>c. c \<noteq> CHR ''.'') (rev name)))"

definition toLowerCase :: "string \<Rightarrow> string" where
  "toLowerCase s =
     map (\<lambda>c. if 65 \<le> (of_char c :: nat) \<and> (of_char c :: nat) \<le> 90 then char_of (of_char c + 32 :: nat) else c) s"

definition hex :: "string \<Rightarrow> string" where
  "hex bytes = concat (map (\<lambda>c. [hexdigit (of_char c div 16), hexdigit (of_char c mod 16)]) bytes)"

section \<open>The logger\<close>

text \<open>
  What one firing of the dispatch timer takes from outside: the clock, whether the request
  to the server fails, the 20 bytes \<^verbatim>\<open>crypto.randomBytes\<close> returns, and the order in which
  the file operations of \<^verbatim>\<open>loadLogFiles\<close> complete (see there).
\<close>

record tick_env =
  now :: int
  request_fails :: bool
  random_bytes :: string
  schedule :: "nat list"

text \<open>The outcome of an asynchronous call: the promise resolves or rejects.\<close>

datatype 'a settled = Resolves 'a | Rejects jsval

subsection \<open>The public methods\<close>

definition setOptions :: "props \<Rightarrow> world \<Rightarrow> jsval + world" where
  "setOptions nextOptions w =
     (if \<not> truthy (obj_get nextOptions ''logPath'') then
        Inl (JErr ''logPath property must be presented'' [])
      else if \<not> truthy (obj_get nextOptions ''serverUrl'') then
        Inl (JErr ''server url must be presented'' [])
      else
        Inr (w\<lparr>defaultOptions := obj_assign (defaultOptions w) nextOptions,
                options := Some Ref_defaultOptions\<rparr>))"

definition stop :: "world \<Rightarrow> world" where
  "stop w = clearInterval (queueCheckInterval w) (clearInterval (connectionCheckInterval w) w)"

definition checkInternetConnected :: "world \<Rightarrow> jsval + world" where
  "checkInternetConnected w =
     (case option_get w ''networkCheckInterval'' of
        None \<Rightarrow> Inl TypeError
      | Some ms \<Rightarrow>
         (case setInterval (ProbeTimer ms) w of
            (h, w1) \<Rightarrow> Inr (w1\<lparr>connectionCheckInterval := Some h\<rparr>)))"

definition checkLoggerQueue :: "world \<Rightarrow> jsval + world" where
  "checkLoggerQueue w =
     (case option_get w ''logCheckInterval'' of
        None \<Rightarrow> Inl TypeError
      | Some ms \<Rightarrow>
         (case setInterval (DispatchTimer ms) w of
            (h, w1) \<Rightarrow> Inr (w1\<lparr>queueCheckInterval := Some h\<rparr>)))"

definition run :: "world \<Rightarrow> jsval + world" where
  "run w =
     (case options w of
        None \<Rightarrow> Inl (JErr ''option is not defined'' [])
      | Some r \<Rightarrow>
         (case checkInternetConnected
                 (if truthy_handle (queueCheckInterval w) \<or> truthy_handle (connectionCheckInterval w)
                  then stop w else w) of
            Inl e \<Rightarrow> Inl e
          | Inr w1 \<Rightarrow> checkLoggerQueue w1))"

text \<open>
  \<^verbatim>\<open>log\<close> takes the time of \<^verbatim>\<open>Date.now()\<close>. The value is \<open>undefined\<close> when the caller leaves
  it out.
\<close>

definition log :: "string \<Rightarrow> jsval \<Rightarrow> int \<Rightarrow> world \<Rightarrow> world" where
  "log action val t w =
     (case options w of
        None \<Rightarrow> w
      | Some r \<Rightarrow>
          w\<lparr>logQueue := logQueue w @
               [JObj (obj_assign [(''action'', JStr action), (''value'', val), (''date'', JNum t)]
                        (defaultLoggerInfo w))]\<rparr>)"

subsection \<open>Delivery to the server and to a backlog file\<close>

text \<open>
  The properties an object spread copies: the own enumerable ones, the elements of an array
  and the characters of a string under their indices, nothing of a primitive value.
\<close>

definition indexed :: "jsval list \<Rightarrow> props" where
  "indexed xs = zip (map digits [0..<length xs]) xs"

fun own_props :: "jsval \<Rightarrow> props" where
  "own_props (JObj ps) = ps"
| "own_props (JErr m ps) = ps"
| "own_props (JArr xs) = indexed xs"
| "own_props (JStr s) = indexed (map (\<lambda>c. JStr [c]) s)"
| "own_props _ = []"

text \<open>
  \<^verbatim>\<open>sendLogToServer\<close>: the whole body is in a \<^verbatim>\<open>try\<close>, and the \<^verbatim>\<open>catch\<close> puts the event back
  at the end of the queue, whatever was raised: destructuring \<open>null\<close> or \<open>undefined\<close>, reading
  an option when there is none, or the request itself.
\<close>

definition sendLogToServer :: "tick_env \<Rightarrow> jsval \<Rightarrow> world \<Rightarrow> world" where
  "sendLogToServer env logObject w =
     (if logObject = JUndefined \<or> logObject = JNull then w\<lparr>logQueue := logQueue w @ [logObject]\<rparr>
      else
        (case option_get w ''serverUrl'' of
           None \<Rightarrow> w\<lparr>logQueue := logQueue w @ [logObject]\<rparr>
         | Some url \<Rightarrow>
            (let w1 = record_io
                        (HttpGet url
                           (obj_assign [(''action'', get_prop logObject ''action''),
                                        (''date'', get_prop logObject ''date'')]
                              (own_props (get_prop logObject ''value''))))
                        w
             in if request_fails env then w1\<lparr>logQueue := logQueue w1 @ [logObject]\<rparr> else w1)))"

text \<open>
  \<^verbatim>\<open>sendLogToFile\<close>: again one \<^verbatim>\<open>try\<close>; the \<^verbatim>\<open>catch\<close> writes the error to the console and
  the event is gone.
\<close>

definition sendLogToFile :: "tick_env \<Rightarrow> jsval \<Rightarrow> world \<Rightarrow> world" where
  "sendLogToFile env logObject w =
     (let fileName = hex (random_bytes env) in
      case option_get w ''logPath'' of
        None \<Rightarrow> console_error [TypeError] w
      | Some logPath \<Rightarrow>
         (case logPath of
            JStr d \<Rightarrow>
              (case JSON_stringify logObject of
                 None \<Rightarrow> console_error [TypeError] w
               | Some text \<Rightarrow>
                  (case writeFile d (fileName @ LOG_EXTENSION) text w of
                     Inl e \<Rightarrow> console_error [e] w
                   | Inr w1 \<Rightarrow> w1))
          | _ \<Rightarrow> console_error [TypeError] w))"

subsection \<open>Reloading the backlog\<close>

text \<open>
  The \<^verbatim>\<open>catch\<close> of the callback that \<^verbatim>\<open>loadLogFiles\<close> runs on each backlog file: it logs an
  event \<^verbatim>\<open>unexpected\<close> whose value holds the error, and writes the error to the console.
\<close>

definition unexpected :: "tick_env \<Rightarrow> jsval \<Rightarrow> world \<Rightarrow> world" where
  "unexpected env e w = console_error [e] (log ''unexpected'' (JObj [(''error'', e)]) (now env) w)"

text \<open>
  The callback that \<^verbatim>\<open>loadLogFiles\<close> maps over the backlog files is asynchronous: it runs up to
  \<^verbatim>\<open>await fs.readFile\<close> and is suspended there; when the read completes it parses, pushes
  the value when it is truthy, and is suspended again at \<^verbatim>\<open>await fs.unlink\<close>; when the unlink
  completes it ends. The read, the parse, the push and the unlink are in the \<^verbatim>\<open>try\<close>, so an
  error of any of them skips what follows it and runs the \<^verbatim>\<open>catch\<close>. A suspended callback is
  the file it works on and the operation it awaits.
\<close>

datatype pending = Reading string | Unlinking string

definition read_done :: "tick_env \<Rightarrow> string \<Rightarrow> string \<Rightarrow> world \<Rightarrow> world \<times> pending list" where
  "read_done env d fileName w =
     (case readFile d fileName w of
        Inl e \<Rightarrow> (unexpected env e w, [])
      | Inr (fileContent, w1) \<Rightarrow>
         (case JSON_parse fileContent of
            None \<Rightarrow> (unexpected env SyntaxError w1, [])
          | Some logObject \<Rightarrow>
             (if truthy logObject then w1\<lparr>logQueue := logQueue w1 @ [logObject]\<rparr> else w1,
              [Unlinking fileName])))"

definition unlink_done :: "tick_env \<Rightarrow> string \<Rightarrow> string \<Rightarrow> world \<Rightarrow> world" where
  "unlink_done env d fileName w =
     (case unlink d fileName w of Inl e \<Rightarrow> unexpected env e w | Inr w1 \<Rightarrow> w1)"

fun resume :: "tick_env \<Rightarrow> string \<Rightarrow> pending \<Rightarrow> world \<Rightarrow> world \<times> pending list" where
  "resume env d (Reading fileName) w = read_done env d fileName w"
| "resume env d (Unlinking fileName) w = (unlink_done env d fileName w, [])"

text \<open>
  \<^verbatim>\<open>Promise.all\<close> waits until every callback has ended. Which suspended callback goes on next
  depends on which file operation completes first, and that is not the program's choice: the
  environment picks, by a list of numbers, each taken modulo the number of suspended
  callbacks (and 0 when the list is used up, which runs the callbacks one after the other in
  the order of \<^verbatim>\<open>readdir\<close>). The callback picked takes its next step and stays in its place
  in the list if it is suspended again. Every order of completion is the choice of some list.
\<close>

fun steps_left :: "pending \<Rightarrow> nat" where
  "steps_left (Reading fileName) = 2"
| "steps_left (Unlinking fileName) = 1"

fun next_pick :: "nat list \<Rightarrow> nat" where
  "next_pick [] = 0"
| "next_pick (i # picks) = i"

function run_callbacks :: "tick_env \<Rightarrow> string \<Rightarrow> nat list \<Rightarrow> pending list \<Rightarrow> world \<Rightarrow> world" where
  "run_callbacks env d picks ps w =
     (if ps = [] then w
      else run_callbacks env d (tl picks)
             (take (next_pick picks mod length ps) ps
                @ snd (resume env d (ps ! (next_pick picks mod length ps)) w)
                @ drop (Suc (next_pick picks mod length ps)) ps)
             (fst (resume env d (ps ! (next_pick picks mod length ps)) w)))"
  by pat_completeness auto

termination
proof (relation "measure (\<lambda>(env, d, picks, ps, w). sum_list (map steps_left ps))")
  show "wf (measure (\<lambda>(env, d, picks, ps, w). sum_list (map steps_left ps)))"
    by simp
next
  fix env :: tick_env and d :: string and picks :: "nat list" and ps :: "pending list" and w :: world
  assume ne: "ps \<noteq> []"
  define i where "i = next_pick picks mod length ps"
  have i: "i < length ps" using ne by (simp add: i_def)
  have less: "sum_list (map steps_left (snd (resume env d (ps ! i) w))) < steps_left (ps ! i)"
    by (cases "ps ! i") (auto simp: read_done_def split: sum.splits option.splits)
  have "sum_list (map steps_left ps)
          = sum_list (map steps_left (take i ps @ ps ! i # drop (Suc i) ps))"
    using id_take_nth_drop [OF i] by simp
  then have "sum_list (map steps_left (take i ps @ snd (resume env d (ps ! i) w) @ drop (Suc i) ps))
          < sum_list (map steps_left ps)"
    using less by simp
  then show "((env, d, tl picks,
               take (next_pick picks mod length ps) ps
                 @ snd (resume env d (ps ! (next_pick picks mod length ps)) w)
                 @ drop (Suc (next_pick picks mod length ps)) ps,
               fst (resume env d (ps ! (next_pick picks mod length ps)) w)),
              (env, d, picks, ps, w))
             \<in> measure (\<lambda>(env, d, picks, ps, w). sum_list (map steps_left ps))"
    by (simp add: i_def)
qed

definition load_failed :: "jsval \<Rightarrow> world \<Rightarrow> world" where
  "load_failed e w = console_error [JStr ''logPath load failed'', e] w"

definition loadLogFiles :: "tick_env \<Rightarrow> world \<Rightarrow> world" where
  "loadLogFiles env w =
     (case option_get w ''logPath'' of
        None \<Rightarrow> load_failed TypeError w
      | Some logPath \<Rightarrow>
         (case logPath of
            JStr d \<Rightarrow>
              (case ensureDir d w of
                 Inl e \<Rightarrow> load_failed e w
               | Inr w1 \<Rightarrow>
                  (case readdir d w1 of
                     Inl e \<Rightarrow> load_failed e w1
                   | Inr (logFiles, w2) \<Rightarrow>
                       run_callbacks env d (schedule env)
                         (map Reading
                            (filter (\<lambda>fileName. toLowerCase (extname fileName) = LOG_EXTENSION) logFiles))
                         w2))
          | _ \<Rightarrow> load_failed TypeError w))"

subsection \<open>The two timer callbacks\<close>

text \<open>
  The callback of the connectivity timer awaits the probe and stores its result. There is no
  \<^verbatim>\<open>try\<close> around the \<^verbatim>\<open>await\<close>: when the probe rejects, the assignment does not happen and the
  promise of the callback rejects with the same error.
\<close>

definition connection_tick :: "bool settled \<Rightarrow> world \<Rightarrow> unit settled \<times> world" where
  "connection_tick probe w =
     (case probe of
        Resolves b \<Rightarrow> (Resolves (), w\<lparr>isInternetConnected := b\<rparr>)
      | Rejects e \<Rightarrow> (Rejects e, w))"

text \<open>
  The callback of the dispatch timer. \<^verbatim>\<open>shift\<close> returns \<open>undefined\<close> on an empty queue. A firing
  is taken as one step: what other callbacks do while this one awaits is not modelled.
\<close>

definition queue_tick :: "tick_env \<Rightarrow> world \<Rightarrow> unit settled \<times> world" where
  "queue_tick env w =
     (case logQueue w of
        [] \<Rightarrow> (Resolves (), w)
      | logObject # rest \<Rightarrow>
         (if truthy logObject then
            (if isInternetConnected w then
               (if \<not> lastInternetConnectedFlag w then
                  (Resolves (),
                   sendLogToServer env logObject
                     ((loadLogFiles env (w\<lparr>logQueue := rest\<rparr>))\<lparr>lastInternetConnectedFlag := True\<rparr>))
                else (Resolves (), sendLogToServer env logObject (w\<lparr>logQueue := rest\<rparr>)))
             else
               (Resolves (),
                sendLogToFile env logObject (w\<lparr>logQueue := rest, lastInternetConnectedFlag := False\<rparr>)))
          else (Resolves (), w\<lparr>logQueue := rest\<rparr>)))"

subsection \<open>Runs of the program\<close>

text \<open>
  What can happen to the logger: a call of one of its four public methods, or a firing of
  one of its timers. A timer callback runs only while a timer with that callback is active.
  A method that throws leaves the state as it was.
\<close>

datatype event =
    SetOptions props
  | Run
  | Stop
  | Log string jsval int
  | ConnectionTick "bool settled"
  | QueueTick tick_env

fun is_probe :: "nat \<times> timer \<Rightarrow> bool" where
  "is_probe (i, ProbeTimer ms) = True"
| "is_probe (i, DispatchTimer ms) = False"

fun is_dispatch :: "nat \<times> timer \<Rightarrow> bool" where
  "is_dispatch (i, ProbeTimer ms) = False"
| "is_dispatch (i, DispatchTimer ms) = True"

fun step :: "world \<Rightarrow> event \<Rightarrow> world" where
  "step w (SetOptions nextOptions) = (case setOptions nextOptions w of Inl e \<Rightarrow> w | Inr w1 \<Rightarrow> w1)"
| "step w Run = (case run w of Inl e \<Rightarrow> w | Inr w1 \<Rightarrow> w1)"
| "step w Stop = stop w"
| "step w (Log action val t) = log action val t w"
| "step w (ConnectionTick probe) =
     (if filter is_probe (timers w) = [] then w else snd (connection_tick probe w))"
| "step w (QueueTick env) =
     (if filter is_dispatch (timers w) = [] then w else snd (queue_tick env w))"

definition exec :: "world \<Rightarrow> event list \<Rightarrow> world" where
  "exec w evs = foldl step w evs"

section \<open>Observations on states and runs\<close>

text \<open>
  Two states are in \<open>logger_frame\<close> when they differ at most in the queue, the file system and
  the record of inputs and outputs: the configuration, the two flags and the timers are the
  same.
\<close>

definition logger_frame :: "world \<Rightarrow> world \<Rightarrow> bool" where
  "logger_frame w w' =
     (defaultOptions w' = defaultOptions w \<and> options w' = options w
      \<and> isInternetConnected w' = isInternetConnected w
      \<and> lastInternetConnectedFlag w' = lastInternetConnectedFlag w
      \<and> connectionCheckInterval w' = connectionCheckInterval w
      \<and> queueCheckInterval w' = queueCheckInterval w
      \<and> defaultLoggerInfo w' = defaultLoggerInfo w
      \<and> timers w' = timers w \<and> next_timer w' = next_timer w)"

text \<open>
  The timers the logger has started are the ones its two handle fields name, and handles are
  positive and below the next one to be given out.
\<close>

definition handle_ok :: "world \<Rightarrow> nat option \<Rightarrow> bool" where
  "handle_ok w h = (h = None \<or> (0 < the h \<and> the h < next_timer w))"

definition timers_owned :: "world \<Rightarrow> bool" where
  "timers_owned w =
     (0 < next_timer w
      \<and> handle_ok w (connectionCheckInterval w)
      \<and> handle_ok w (queueCheckInterval w)
      \<and> list_all (\<lambda>it. (is_probe it \<longrightarrow> connectionCheckInterval w = Some (fst it))
                       \<and> (is_dispatch it \<longrightarrow> queueCheckInterval w = Some (fst it))) (timers w))"

text \<open>
  \<open>grows w w'\<close>: from \<open>w\<close> to \<open>w'\<close> the queue has only gained truthy values at its end, and
  no file was written.
\<close>

fun is_write :: "io \<Rightarrow> bool" where
  "is_write (WriteFile d n c) = True"
| "is_write _ = False"

definition grows :: "world \<Rightarrow> world \<Rightarrow> bool" where
  "grows w w' =
     ((\<exists>vs. logQueue w' = logQueue w @ vs \<and> list_all truthy vs)
      \<and> (\<exists>xs. trace w' = trace w @ xs \<and> list_all (\<lambda>x. \<not> is_write x) xs))"

definition queue_truthy :: "world \<Rightarrow> bool" where
  "queue_truthy w = list_all truthy (logQueue w)"

definition no_write :: "world \<Rightarrow> bool" where
  "no_write w = list_all (\<lambda>x. \<not> is_write x) (trace w)"

text \<open>
  In a run, the firings of the dispatch timer that pop a value while the cached connectivity
  flag is true, the firings of the connectivity timer that store a probe result, and the
  runs in which no event of a given kind has happened yet.
\<close>

fun connected_pop :: "world \<Rightarrow> event \<Rightarrow> bool" where
  "connected_pop w (QueueTick env) =
     (filter is_dispatch (timers w) \<noteq> [] \<and> logQueue w \<noteq> [] \<and> isInternetConnected w)"
| "connected_pop w _ = False"

fun stores_probe :: "event \<Rightarrow> bool" where
  "stores_probe (ConnectionTick (Resolves b)) = True"
| "stores_probe _ = False"

fun before_first :: "(world \<Rightarrow> event \<Rightarrow> bool) \<Rightarrow> world \<Rightarrow> event list \<Rightarrow> bool" where
  "before_first P w [] = True"
| "before_first P w (ev # evs) = (\<not> P w ev \<and> before_first P (step w ev) evs)"

text \<open>
  The object that \<^verbatim>\<open>log\<close> builds on a host of the given operating system, and the values its
  parameter \<^verbatim>\<open>value\<close> is declared to take: \<open>undefined\<close>, or an object whose properties are
  strings.
\<close>

definition event_object :: "string \<Rightarrow> jsval \<Rightarrow> int \<Rightarrow> string \<Rightarrow> jsval" where
  "event_object action val t osType =
     JObj [(''action'', JStr action), (''value'', val), (''date'', JNum t), (''osType'', JStr osType)]"

fun is_string :: "jsval \<Rightarrow> bool" where
  "is_string (JStr s) = True"
| "is_string _ = False"

fun attributes :: "jsval \<Rightarrow> bool" where
  "attributes JUndefined = True"
| "attributes (JObj attrs) = (distinct (map fst attrs) \<and> list_all (\<lambda>kv. is_string (snd kv)) attrs)"
| "attributes _ = False"

text \<open>
  The name \<^verbatim>\<open>sendLogToFile\<close> gives the file it writes, and the states in which the backlog
  directory holds a regular file of a given name and content.
\<close>

definition backlog_name :: "tick_env \<Rightarrow> string" where
  "backlog_name env = hex (random_bytes env) @ LOG_EXTENSION"

definition holds_file :: "string \<Rightarrow> string \<Rightarrow> string \<Rightarrow> world \<Rightarrow> bool" where
  "holds_file d name text w = (\<exists>es. fs w d = Dir es \<and> map_of es name = Some (File text))"

text \<open>
  The firings of the dispatch timer that pop a value, and their number in a run; the requests
  among the inputs and outputs.
\<close>

fun is_pop :: "world \<Rightarrow> event \<Rightarrow> bool" where
  "is_pop w (QueueTick env) = (filter is_dispatch (timers w) \<noteq> [] \<and> logQueue w \<noteq> [])"
| "is_pop w _ = False"

fun pops :: "world \<Rightarrow> event list \<Rightarrow> nat" where
  "pops w [] = 0"
| "pops w (ev # evs) = (if is_pop w ev then 1 else 0) + pops (step w ev) evs"

fun is_http :: "io \<Rightarrow> bool" where
  "is_http (HttpGet url params) = True"
| "is_http _ = False"

text \<open>
  The states in which the backlog directory has no file of a given name. \<open>tracked\<close> follows
  one backlog file through \<^verbatim>\<open>Promise.all\<close>: its callback awaits the read and the file is
  there; or it awaits the unlink, the file is there and its value is in the queue; or it has
  ended, the file is gone and its value is in the queue.
\<close>

definition gone :: "string \<Rightarrow> string \<Rightarrow> world \<Rightarrow> bool" where
  "gone d name w = (\<exists>es. fs w d = Dir es \<and> name \<notin> fst ` set es)"

definition tracked :: "string \<Rightarrow> string \<Rightarrow> string \<Rightarrow> jsval \<Rightarrow> pending list \<Rightarrow> world \<Rightarrow> bool" where
  "tracked d name text v ps w =
     ((count_list ps (Reading name) = 1 \<and> count_list ps (Unlinking name) = 0
         \<and> holds_file d name text w)
      \<or> (count_list ps (Reading name) = 0 \<and> count_list ps (Unlinking name) = 1
         \<and> holds_file d name text w \<and> v \<in> set (logQueue w))
      \<or> (count_list ps (Reading name) = 0 \<and> count_list ps (Unlinking name) = 0
         \<and> gone d name w \<and> v \<in> set (logQueue w)))"

section \<open>Example states\<close>

text \<open>Concrete states and inputs, on which the theorems below are instantiated.\<close>

definition no_disk :: "string \<Rightarrow> node" where
  "no_disk p = Missing"

definition example_options :: props where
  "example_options = [(''logPath'', JStr ''/tmp/x''), (''serverUrl'', JStr ''http://example'')]"

definition first_options :: props where
  "first_options =
     [(''logPath'', JStr ''/tmp/x''), (''serverUrl'', JStr ''http://example''),
      (''networkCheckInterval'', JNum 5)]"

definition fresh :: world where
  "fresh = initial ''Linux'' no_disk"

definition started :: world where
  "started = exec fresh [SetOptions example_options, Run]"

definition calm :: tick_env where
  "calm = \<lparr> now = 1700, request_fails = False, random_bytes = ''0123456789abcdefghij'',
       schedule = [] \<rparr>"

definition failing :: tick_env where
  "failing = \<lparr> now = 1800, request_fails = True, random_bytes = ''0123456789abcdefghij'',
       schedule = [] \<rparr>"

definition click_event :: jsval where
  "click_event =
     JObj [(''action'', JStr ''click''), (''value'', JObj [(''id'', JStr ''7'')]), (''date'', JNum 1700),
           (''osType'', JStr ''Linux'')]"

definition click_run :: "event list" where
  "click_run =
     [SetOptions example_options, Run, QueueTick calm, ConnectionTick (Rejects TypeError),
      Log ''click'' (JObj [(''id'', JStr ''7'')]) 1700]"

text \<open>
  A backlog directory with a file that is not JSON, a file that cannot be read, a file of
  another extension and a file that holds an event; and one with a single old file.
\<close>

definition boot_text :: string where
  \<open>boot_text = ''{"action":"boot","date":1600,"osType":"Linux"}''\<close>

definition poisoned_disk :: "string \<Rightarrow> node" where
  "poisoned_disk p =
     (if p = ''/tmp/x''
      then Dir [(''bad.ehl'', File ''{''), (''locked.ehl'', Locked), (''notes.txt'', File ''{''),
                (''good.EHL'', File boot_text)]
      else Missing)"

definition poisoned :: world where
  "poisoned = exec (initial ''Linux'' poisoned_disk) [SetOptions example_options, Run]"

definition offline :: world where
  "offline = exec (initial ''Linux'' (no_disk(''/tmp/x'' := Dir [(''old.ehl'', File ''{'')])))
               [SetOptions example_options, Run]"

text \<open>
  An environment in which the file operations of \<^verbatim>\<open>loadLogFiles\<close> complete out of order; a
  state after a failed delivery, and two ways to go on from it; a backlog path that is a
  regular file, and a run on it; the event that \<^verbatim>\<open>loadLogFiles\<close> logs for a file that does not
  parse, and what is left of it after a round trip through a backlog file.
\<close>

definition shuffled :: tick_env where
  "shuffled = \<lparr> now = 1900, request_fails = False, random_bytes = ''0123456789abcdefghij'',
                schedule = [1, 0, 1] \<rparr>"

definition requeued :: world where
  "requeued = snd (queue_tick failing (exec fresh click_run))"

definition scroll_run :: "event list" where
  "scroll_run = [Log ''scroll'' JUndefined 1900]"

definition unplug_run :: "event list" where
  "unplug_run = [ConnectionTick (Resolves False)]"

definition blocked_disk :: "string \<Rightarrow> node" where
  "blocked_disk p = (if p = ''/tmp/x'' then NotDir else Missing)"

definition requeue_run :: "event list" where
  "requeue_run =
     [SetOptions example_options, Run, Log ''click'' (JObj [(''id'', JStr ''7'')]) 1700,
      QueueTick failing]"

definition lost_run :: "event list" where
  "lost_run = requeue_run @ [ConnectionTick (Resolves False), QueueTick calm]"

definition error_event :: jsval where
  "error_event = event_object ''unexpected'' (JObj [(''error'', SyntaxError)]) 1700 ''Linux''"

definition reloaded_error_event :: jsval where
  "reloaded_error_event = event_object ''unexpected'' (JObj [(''error'', JObj [])]) 1700 ''Linux''"

definition empty_backlog :: world where
  "empty_backlog = exec (initial ''Linux'' (no_disk(''/tmp/x'' := Dir [])))
                     [SetOptions example_options, Run]"

section \<open>Properties\<close>

lemmas logger_defs =
  fresh_def exec_def initial_def example_options_def first_options_def setOptions_def obj_get_def
  run_def stop_def truthy_handle_def checkInternetConnected_def checkLoggerQueue_def option_get_def
  obj_assign_def setInterval_def clearInterval_def

lemmas tick_defs = queue_tick_def connection_tick_def log_def click_run_def click_event_def calm_def
  failing_def

lemma started_timers:
  "timers started = [(1, ProbeTimer (JNum 1000)), (2, DispatchTimer (JNum 1000))]"
  by (simp add: started_def logger_defs)

lemma click_run_state:
  "logQueue (exec fresh click_run) = [click_event]
   \<and> isInternetConnected (exec fresh click_run)
   \<and> \<not> lastInternetConnectedFlag (exec fresh click_run)"
  by (simp add: logger_defs tick_defs)

subsection \<open>The JSON codec: parsing the text of a value gives its image\<close>

lemma hexval_hexdigit: "d < 16 \<Longrightarrow> hexval (hexdigit d) = Some d"
proof -
  assume "d < 16"
  then consider "d < 10" | "10 \<le> d \<and> d < 16" by linarith
  then show ?thesis
  proof cases
    case 1
    then show ?thesis by (simp add: hexval_def hexdigit_def Let_def)
  next
    case 2
    then show ?thesis by (simp add: hexval_def hexdigit_def Let_def)
  qed
qed

lemma hexval_zero: "hexval (CHR ''0'') = Some 0"
  by (simp add: hexval_def)

lemma parse_chars_unicode_escape:
  assumes "(of_char c :: nat) < 32"
  shows "parse_chars Plain acc
           (CHR 0x5C # CHR ''u'' # CHR ''0'' # CHR ''0'' # hexdigit (of_char c div 16)
              # hexdigit (of_char c mod 16) # cs)
         = parse_chars Plain (acc @ [c]) cs"
proof -
  have d: "(of_char c :: nat) div 16 < 16" "(of_char c :: nat) mod 16 < 16" using assms by auto
  have u: "utf8 (of_char c) = [c]" using assms by (simp add: utf8_def)
  have v: "(of_char c :: nat) div 16 * 16 + of_char c mod 16 = of_char c" by simp
  show ?thesis
    using u v by (simp add: hexval_hexdigit [OF d(1)] hexval_hexdigit [OF d(2)] hexval_zero)
qed

lemma parse_chars_quote_char:
  "parse_chars Plain acc (quote_char c @ cs) = parse_chars Plain (acc @ [c]) cs"
proof (cases "(of_char c :: nat) < 32")
  case False
  then have "c \<noteq> CHR 0x08" "c \<noteq> CHR 0x09" "c \<noteq> CHR 0x0A" "c \<noteq> CHR 0x0C" "c \<noteq> CHR 0x0D"
    by auto
  then show ?thesis using False by (simp add: quote_char_def)
next
  case True
  then have q: "c \<noteq> CHR 0x22" "c \<noteq> CHR 0x5C" by auto
  consider "c = CHR 0x08" | "c = CHR 0x09" | "c = CHR 0x0A" | "c = CHR 0x0C" | "c = CHR 0x0D"
    | "c \<noteq> CHR 0x08 \<and> c \<noteq> CHR 0x09 \<and> c \<noteq> CHR 0x0A \<and> c \<noteq> CHR 0x0C \<and> c \<noteq> CHR 0x0D"
    by blast
  then show ?thesis
  proof cases
    case 6
    then show ?thesis
      using q True parse_chars_unicode_escape [OF True, of acc cs]
      by (simp add: quote_char_def)
  qed (simp_all add: quote_char_def)
qed

lemma parse_chars_quoted:
  "parse_chars Plain acc (concat (map quote_char s) @ CHR 0x22 # rest) = Some (acc @ s, rest)"
  by (induction s arbitrary: acc) (simp_all add: parse_chars_quote_char)

declare digits.simps [simp del]

declare run_callbacks.simps [simp del]

lemma is_digit_char_of: "(n::nat) < 10 \<Longrightarrow> is_digit (char_of (48 + n))"
  by (simp add: is_digit_def)

lemma digit_val_char_of: "(n::nat) < 10 \<Longrightarrow> digit_val (char_of (48 + n)) = n"
  by (simp add: digit_val_def)

lemma digits_are_digits: "\<forall>c \<in> set (digits n). is_digit c"
proof (induction n rule: digits.induct)
  case (1 n)
  show ?case
  proof (cases "n < 10")
    case True
    then show ?thesis by (subst digits.simps) (simp add: is_digit_char_of)
  next
    case False
    then show ?thesis using 1 by (subst digits.simps) (simp add: is_digit_char_of)
  qed
qed

lemma digits_not_empty: "digits n \<noteq> []"
  by (subst digits.simps) simp

lemma digits_value: "foldl (\<lambda>a c. 10 * a + digit_val c) 0 (digits n) = n"
proof (induction n rule: digits.induct)
  case (1 n)
  show ?case
  proof (cases "n < 10")
    case True
    then show ?thesis by (subst digits.simps) (simp add: digit_val_char_of)
  next
    case False
    then show ?thesis using 1 by (subst digits.simps) (simp add: digit_val_char_of)
  qed
qed

lemma digits_no_leading_zero: "n \<noteq> 0 \<Longrightarrow> hd (digits n) \<noteq> CHR ''0''"
proof (induction n rule: digits.induct)
  case (1 n)
  show ?case
  proof (cases "n < 10")
    case True
    have "char_of (48 + n) = CHR ''0'' \<Longrightarrow> n = 0"
    proof -
      assume "char_of (48 + n) = CHR ''0''"
      then have "of_char (char_of (48 + n) :: char) = (of_char (CHR ''0'') :: nat)" by simp
      then show "n = 0" using True by simp
    qed
    then show ?thesis using True 1(2) by (subst digits.simps) auto
  next
    case False
    then have "n div 10 \<noteq> 0" by simp
    then show ?thesis using False 1(1) digits_not_empty [of "n div 10"]
      by (subst digits.simps) simp
  qed
qed

lemma char_of_48: "char_of (48::nat) = CHR ''0''"
  by code_simp

lemma digits_zero: "digits 0 = ''0''"
  by (subst digits.simps) (simp add: char_of_48)

lemma boundary_no_digit: "boundary rest \<Longrightarrow> takeWhile is_digit rest = [] \<and> dropWhile is_digit rest = rest"
  by (cases rest) (auto simp: boundary_def is_digit_def)

lemma boundary_no_fraction: "boundary rest \<Longrightarrow> no_fraction rest"
  by (cases rest) (auto simp: boundary_def no_fraction_def)

lemma parse_nat_digits:
  assumes "boundary rest"
  shows "parse_nat (digits n @ rest) = Some (n, rest)"
proof -
  have t: "takeWhile is_digit (digits n @ rest) = digits n"
    using digits_are_digits [of n] boundary_no_digit [OF assms] by (simp add: takeWhile_append2)
  have d: "dropWhile is_digit (digits n @ rest) = rest"
    using digits_are_digits [of n] boundary_no_digit [OF assms] by (simp add: dropWhile_append2)
  have z: "\<not> (hd (digits n) = CHR ''0'' \<and> tl (digits n) \<noteq> [])"
  proof (cases "n = 0")
    case True
    then show ?thesis by (simp add: digits_zero)
  next
    case False
    then show ?thesis using digits_no_leading_zero [of n] by simp
  qed
  show ?thesis
    unfolding parse_nat_def t d Let_def if_not_P [OF z]
    by (simp add: digits_not_empty digits_value)
qed

lemma hd_digits_is_digit: "\<exists>c cs. digits n = c # cs \<and> is_digit c"
  using digits_not_empty [of n] digits_are_digits [of n] by (cases "digits n") auto

lemma parse_number_show_int:
  assumes "boundary rest"
  shows "parse_number (show_int i @ rest) = Some (JNum i, rest)"
proof (cases "i < 0")
  case True
  then show ?thesis
    using parse_nat_digits [OF assms, of "nat (- i)"] boundary_no_fraction [OF assms]
    by (simp add: parse_number_def show_int_def)
next
  case False
  obtain c cs where c: "digits (nat i) = c # cs" "is_digit c"
    using hd_digits_is_digit by blast
  then have "c \<noteq> CHR ''-''" by (auto simp: is_digit_def)
  then show ?thesis
    using False c parse_nat_digits [OF assms, of "nat i"] boundary_no_fraction [OF assms]
    by (simp add: parse_number_def show_int_def)
qed

lemma skip_ws_starter: "starter c \<Longrightarrow> skip_ws (c # cs) = c # cs"
  by (auto simp: starter_def skip_ws_def is_ws_def is_digit_def)

lemma skip_ws_boundary: "boundary (c # cs) \<Longrightarrow> skip_ws (c # cs) = c # cs"
  by (auto simp: boundary_def skip_ws_def is_ws_def)

lemma show_int_head: "\<exists>c cs. show_int i = c # cs \<and> (c = CHR ''-'' \<or> is_digit c)"
  using hd_digits_is_digit [of "nat i"] by (auto simp: show_int_def)

lemma stringify_head:
  "JSON_stringify v = Some text \<Longrightarrow> \<exists>c cs. text = c # cs \<and> starter c"
  using show_int_head [of "case v of JNum n \<Rightarrow> n | _ \<Rightarrow> 0"]
  by (cases v) (auto simp: starter_def quote_def split: if_splits)

lemma parse_value_string:
  "parse_value (Suc n) (CHR 0x22 # r) =
     (case parse_chars Plain [] r of None \<Rightarrow> None | Some (s, r') \<Rightarrow> Some (JStr s, r'))"
  by (simp add: skip_ws_starter starter_def)

lemma parse_value_null: "parse_value (Suc n) (''null'' @ rest) = Some (JNull, rest)"
  by (simp add: skip_ws_starter starter_def)

lemma parse_value_true: "parse_value (Suc n) (''true'' @ rest) = Some (JBool True, rest)"
  by (simp add: skip_ws_starter starter_def)

lemma parse_value_false: "parse_value (Suc n) (''false'' @ rest) = Some (JBool False, rest)"
  by (simp add: skip_ws_starter starter_def)

lemma number_head_other:
  assumes "c = CHR ''-'' \<or> is_digit c"
  shows "c \<noteq> CHR 0x22" "c \<noteq> CHR ''[''" "c \<noteq> CHR ''{''" "c \<noteq> CHR ''n''" "c \<noteq> CHR ''t''"
    "c \<noteq> CHR ''f''" "starter c"
  using assms by (auto simp: is_digit_def starter_def)

lemma parse_value_number:
  assumes "c = CHR ''-'' \<or> is_digit c"
  shows "parse_value (Suc n) (c # r) = parse_number (c # r)"
  using number_head_other [OF assms] by (simp add: skip_ws_starter)

lemma parse_value_array_empty:
  "parse_value (Suc n) (CHR ''['' # CHR '']'' # rest) = Some (JArr [], rest)"
  by (simp add: skip_ws_def is_ws_def)

lemma starter_not_close: "starter c \<Longrightarrow> c \<noteq> CHR '']'' \<and> c \<noteq> CHR ''}''"
  by (auto simp: starter_def is_digit_def)

lemma parse_value_array:
  assumes "starter c"
  shows "parse_value (Suc n) (CHR ''['' # c # r) = parse_elements n [] (c # r)"
  using starter_not_close [OF assms] skip_ws_starter [OF assms, of r]
  by (simp add: skip_ws_def is_ws_def)

lemma parse_value_object_empty:
  "parse_value (Suc n) (CHR ''{'' # CHR ''}'' # rest) = Some (JObj [], rest)"
  by (simp add: skip_ws_def is_ws_def)

lemma parse_value_object:
  "parse_value (Suc n) (CHR ''{'' # CHR 0x22 # r) = parse_members n [] (CHR 0x22 # r)"
  by (simp add: skip_ws_def is_ws_def)

lemma stringify_None: "JSON_stringify v = None \<longleftrightarrow> v = JUndefined"
  by (cases v) simp_all

lemma stringify_elements_empty: "stringify_elements xs = [] \<longleftrightarrow> xs = []"
  by (cases xs) simp_all

lemma join_comma_cons: "ys \<noteq> [] \<Longrightarrow> join_comma (x # ys) = x @ CHR '','' # join_comma ys"
  by (cases ys) simp_all

lemma json_members_keys:
  "map fst (json_members ps) = map fst (filter (\<lambda>kv. snd kv \<noteq> JUndefined) ps)"
  by (induction ps) auto

lemma stringify_members_empty: "stringify_members ps = [] \<longleftrightarrow> json_members ps = []"
  by (induction ps) (auto simp: stringify_None split: option.splits if_splits)

lemma obj_set_fresh: "k \<notin> fst ` set acc \<Longrightarrow> obj_set acc k v = acc @ [(k, v)]"
  by (induction acc) auto

lemma element_text_head: "\<exists>c cs. element_text x = c # cs \<and> starter c"
proof (cases "JSON_stringify x")
  case None
  then show ?thesis by (simp add: element_text_def starter_def)
next
  case (Some s)
  then show ?thesis using stringify_head [OF Some] by (simp add: element_text_def)
qed

lemma parse_value_element:
  assumes ih: "\<And>fuel rest text. JSON_stringify x = Some text \<Longrightarrow> well_formed x \<Longrightarrow> boundary rest
                 \<Longrightarrow> length text < fuel \<Longrightarrow> parse_value fuel (text @ rest) = Some (json_image x, rest)"
    and "well_formed x" "boundary rest" "length (element_text x) < fuel"
  shows "parse_value fuel (element_text x @ rest) = Some (element_image x, rest)"
proof (cases "JSON_stringify x")
  case None
  then have u: "x = JUndefined" by (simp add: stringify_None)
  obtain n where "fuel = Suc n" using assms(4) by (cases fuel) auto
  then show ?thesis using None u parse_value_null [of n rest]
    by (simp add: element_text_def element_image_def)
next
  case (Some s)
  then have "x \<noteq> JUndefined" by auto
  then show ?thesis using Some ih [OF Some assms(2,3)] assms(4)
    by (simp add: element_text_def element_image_def)
qed

lemma parse_elements_step:
  assumes pv: "parse_value m (t @ c # r) = Some (v, c # r)"
  shows "c = CHR '']'' \<Longrightarrow> parse_elements (Suc m) acc (t @ c # r) = Some (JArr (acc @ [v]), r)"
    and "c = CHR '','' \<Longrightarrow> parse_elements (Suc m) acc (t @ c # r) = parse_elements m (acc @ [v]) r"
  using pv by (simp_all add: skip_ws_def is_ws_def)

lemma parse_elements_cons:
  assumes ihx: "\<And>fuel rest text. JSON_stringify x = Some text \<Longrightarrow> well_formed x \<Longrightarrow> boundary rest
                 \<Longrightarrow> length text < fuel \<Longrightarrow> parse_value fuel (text @ rest) = Some (json_image x, rest)"
    and ihxs: "\<And>fuel acc rest. xs \<noteq> [] \<Longrightarrow> wf_elements xs \<Longrightarrow> boundary rest
                 \<Longrightarrow> length (join_comma (stringify_elements xs)) + 2 \<le> fuel
                 \<Longrightarrow> parse_elements fuel acc (join_comma (stringify_elements xs) @ CHR '']'' # rest)
                       = Some (JArr (acc @ json_elements xs), rest)"
    and wf: "wf_elements (x # xs)" and b: "boundary rest"
    and fuel: "length (join_comma (stringify_elements (x # xs))) + 2 \<le> fuel"
  shows "parse_elements fuel acc (join_comma (stringify_elements (x # xs)) @ CHR '']'' # rest)
           = Some (JArr (acc @ json_elements (x # xs)), rest)"
proof -
  have se: "stringify_elements (x # xs) = element_text x # stringify_elements xs"
    by (simp add: element_text_def)
  have je: "json_elements (x # xs) = element_image x # json_elements xs"
    by (simp add: element_image_def)
  obtain m where m: "fuel = Suc m" using fuel by (cases fuel) auto
  show ?thesis
  proof (cases "xs = []")
    case True
    have l: "length (element_text x) < m" using fuel m True se by simp
    have "boundary (CHR '']'' # rest)" by (simp add: boundary_def)
    from parse_value_element [OF ihx _ this l] wf
    have "parse_value m (element_text x @ CHR '']'' # rest) = Some (element_image x, CHR '']'' # rest)"
      by simp
    from parse_elements_step(1) [OF this, of acc] show ?thesis
      using True m se je by simp
  next
    case False
    then have ne: "stringify_elements xs \<noteq> []" by (simp add: stringify_elements_empty)
    have j: "join_comma (stringify_elements (x # xs))
               = element_text x @ CHR '','' # join_comma (stringify_elements xs)"
      using se join_comma_cons [OF ne] by simp
    have l: "length (element_text x) < m" using fuel m j by simp
    have l2: "length (join_comma (stringify_elements xs)) + 2 \<le> m" using fuel m j by simp
    have "boundary (CHR '','' # join_comma (stringify_elements xs) @ CHR '']'' # rest)"
      by (simp add: boundary_def)
    from parse_value_element [OF ihx _ this l] wf
    have "parse_value m (element_text x @ CHR '','' # join_comma (stringify_elements xs) @ CHR '']'' # rest)
            = Some (element_image x, CHR '','' # join_comma (stringify_elements xs) @ CHR '']'' # rest)"
      by simp
    from parse_elements_step(2) [OF this, of acc]
    have "parse_elements (Suc m) acc
            (element_text x @ CHR '','' # join_comma (stringify_elements xs) @ CHR '']'' # rest)
          = parse_elements m (acc @ [element_image x]) (join_comma (stringify_elements xs) @ CHR '']'' # rest)"
      by simp
    also have "\<dots> = Some (JArr ((acc @ [element_image x]) @ json_elements xs), rest)"
      using ihxs [OF False _ b l2] wf by simp
    finally show ?thesis using m j je by simp
  qed
qed

lemma member_text_head:
  "stringify_members ps \<noteq> [] \<Longrightarrow> \<exists>r. join_comma (stringify_members ps) = CHR 0x22 # r"
proof (induction ps)
  case Nil
  then show ?case by simp
next
  case (Cons kv ps)
  obtain k v where kv: "kv = (k, v)" by (cases kv)
  show ?case
  proof (cases "JSON_stringify v")
    case None
    then show ?thesis using Cons kv by simp
  next
    case (Some s)
    show ?thesis
    proof (cases "stringify_members ps = []")
      case True
      then show ?thesis using Some kv by (simp add: quote_def)
    next
      case False
      then show ?thesis using Some kv join_comma_cons [OF False] by (simp add: quote_def)
    qed
  qed
qed

lemma parse_members_step:
  assumes pv: "parse_value m (t @ c # r) = Some (v, c # r)"
  shows "c = CHR ''}'' \<Longrightarrow>
           parse_members (Suc m) acc (quote k @ CHR '':'' # t @ c # r) = Some (JObj (obj_set acc k v), r)"
    and "c = CHR '','' \<Longrightarrow>
           parse_members (Suc m) acc (quote k @ CHR '':'' # t @ c # r) = parse_members m (obj_set acc k v) r"
  using pv by (simp_all add: quote_def parse_chars_quoted skip_ws_def is_ws_def)

lemma parse_members_cons:
  assumes ihv: "\<And>fuel rest text. JSON_stringify v = Some text \<Longrightarrow> well_formed v \<Longrightarrow> boundary rest
                 \<Longrightarrow> length text < fuel \<Longrightarrow> parse_value fuel (text @ rest) = Some (json_image v, rest)"
    and ihps: "\<And>fuel acc rest. stringify_members ps \<noteq> [] \<Longrightarrow> wf_members ps
                 \<Longrightarrow> distinct (map fst acc @ map fst (json_members ps)) \<Longrightarrow> boundary rest
                 \<Longrightarrow> length (join_comma (stringify_members ps)) + 2 \<le> fuel
                 \<Longrightarrow> parse_members fuel acc (join_comma (stringify_members ps) @ CHR ''}'' # rest)
                       = Some (JObj (acc @ json_members ps), rest)"
    and ne: "stringify_members ((k, v) # ps) \<noteq> []"
    and wf: "wf_members ((k, v) # ps)"
    and di: "distinct (map fst acc @ map fst (json_members ((k, v) # ps)))"
    and b: "boundary rest"
    and fuel: "length (join_comma (stringify_members ((k, v) # ps))) + 2 \<le> fuel"
  shows "parse_members fuel acc (join_comma (stringify_members ((k, v) # ps)) @ CHR ''}'' # rest)
           = Some (JObj (acc @ json_members ((k, v) # ps)), rest)"
proof (cases "JSON_stringify v")
  case None
  then have u: "v = JUndefined" by (simp add: stringify_None)
  show ?thesis using None u ihps [OF _ _ _ b, where fuel=fuel and acc=acc] ne wf di fuel by simp
next
  case (Some t)
  then have d: "v \<noteq> JUndefined" by auto
  have sm: "stringify_members ((k, v) # ps) = (quote k @ CHR '':'' # t) # stringify_members ps"
    using Some by simp
  have jm: "json_members ((k, v) # ps) = (k, json_image v) # json_members ps"
    using d by simp
  have fresh: "k \<notin> fst ` set acc" using di jm by auto
  have os: "obj_set acc k (json_image v) = acc @ [(k, json_image v)]"
    by (rule obj_set_fresh [OF fresh])
  obtain m where m: "fuel = Suc m" using fuel by (cases fuel) auto
  have wv: "well_formed v" using wf by simp
  show ?thesis
  proof (cases "stringify_members ps = []")
    case True
    then have e: "json_members ps = []" by (simp add: stringify_members_empty)
    have l: "length t < m" using fuel m sm True by simp
    have "boundary (CHR ''}'' # rest)" by (simp add: boundary_def)
    from ihv [OF Some wv this l]
    have "parse_value m (t @ CHR ''}'' # rest) = Some (json_image v, CHR ''}'' # rest)" .
    from parse_members_step(1) [OF this, of acc k] show ?thesis
      using True m sm jm e os by simp
  next
    case False
    have j: "join_comma (stringify_members ((k, v) # ps))
               = (quote k @ CHR '':'' # t) @ CHR '','' # join_comma (stringify_members ps)"
      using sm join_comma_cons [OF False] by simp
    have l: "length t < m" using fuel m j by simp
    have l2: "length (join_comma (stringify_members ps)) + 2 \<le> m" using fuel m j by simp
    have "boundary (CHR '','' # join_comma (stringify_members ps) @ CHR ''}'' # rest)"
      by (simp add: boundary_def)
    from ihv [OF Some wv this l]
    have "parse_value m (t @ CHR '','' # join_comma (stringify_members ps) @ CHR ''}'' # rest)
            = Some (json_image v, CHR '','' # join_comma (stringify_members ps) @ CHR ''}'' # rest)" .
    from parse_members_step(2) [OF this, of acc k]
    have "parse_members (Suc m) acc
            (quote k @ CHR '':'' # t @ CHR '','' # join_comma (stringify_members ps) @ CHR ''}'' # rest)
          = parse_members m (acc @ [(k, json_image v)]) (join_comma (stringify_members ps) @ CHR ''}'' # rest)"
      using os by simp
    also have "\<dots> = Some (JObj ((acc @ [(k, json_image v)]) @ json_members ps), rest)"
    proof (rule ihps [OF False _ _ b l2])
      show "wf_members ps" using wf by simp
      show "distinct (map fst (acc @ [(k, json_image v)]) @ map fst (json_members ps))"
        using di jm by simp
    qed
    finally show ?thesis using m j jm by simp
  qed
qed

lemma parse_value_array_text:
  assumes ih: "\<And>fuel acc rest. xs \<noteq> [] \<Longrightarrow> wf_elements xs \<Longrightarrow> boundary rest
                 \<Longrightarrow> length (join_comma (stringify_elements xs)) + 2 \<le> fuel
                 \<Longrightarrow> parse_elements fuel acc (join_comma (stringify_elements xs) @ CHR '']'' # rest)
                       = Some (JArr (acc @ json_elements xs), rest)"
    and wf: "wf_elements xs" and b: "boundary rest"
    and fuel: "length (CHR ''['' # join_comma (stringify_elements xs) @ '']'') < fuel"
  shows "parse_value fuel ((CHR ''['' # join_comma (stringify_elements xs) @ '']'') @ rest)
           = Some (JArr (json_elements xs), rest)"
proof -
  obtain n where n: "fuel = Suc n" using fuel by (cases fuel) auto
  show ?thesis
  proof (cases xs)
    case Nil
    then show ?thesis using n parse_value_array_empty [of n rest] by simp
  next
    case (Cons x ys)
    then have ne: "xs \<noteq> []" by simp
    obtain c cs where h: "element_text x = c # cs" "starter c"
      using element_text_head by blast
    have "\<exists>r. join_comma (stringify_elements xs) = c # r"
    proof (cases "ys = []")
      case True
      then show ?thesis using Cons h by (simp add: element_text_def)
    next
      case False
      then have "stringify_elements ys \<noteq> []" by (simp add: stringify_elements_empty)
      from join_comma_cons [OF this] show ?thesis using Cons h by (simp add: element_text_def)
    qed
    then obtain r where r: "join_comma (stringify_elements xs) = c # r" by blast
    have l: "length (join_comma (stringify_elements xs)) + 2 \<le> n" using fuel n by simp
    have "parse_value (Suc n) (CHR ''['' # c # r @ CHR '']'' # rest)
            = parse_elements n [] (c # r @ CHR '']'' # rest)"
      using parse_value_array [OF h(2), of n "r @ CHR '']'' # rest"] by simp
    also have "\<dots> = Some (JArr ([] @ json_elements xs), rest)"
      using ih [OF ne wf b l, of "[]"] r by simp
    finally show ?thesis using n r by simp
  qed
qed

lemma parse_value_object_text:
  assumes ih: "\<And>fuel acc rest. stringify_members ps \<noteq> [] \<Longrightarrow> wf_members ps
                 \<Longrightarrow> distinct (map fst acc @ map fst (json_members ps)) \<Longrightarrow> boundary rest
                 \<Longrightarrow> length (join_comma (stringify_members ps)) + 2 \<le> fuel
                 \<Longrightarrow> parse_members fuel acc (join_comma (stringify_members ps) @ CHR ''}'' # rest)
                       = Some (JObj (acc @ json_members ps), rest)"
    and di: "distinct (map fst ps)" and wf: "wf_members ps" and b: "boundary rest"
    and fuel: "length (CHR ''{'' # join_comma (stringify_members ps) @ ''}'') < fuel"
  shows "parse_value fuel ((CHR ''{'' # join_comma (stringify_members ps) @ ''}'') @ rest)
           = Some (JObj (json_members ps), rest)"
proof -
  obtain n where n: "fuel = Suc n" using fuel by (cases fuel) auto
  show ?thesis
  proof (cases "stringify_members ps = []")
    case True
    then have "json_members ps = []" by (simp add: stringify_members_empty)
    then show ?thesis using True n parse_value_object_empty [of n rest] by simp
  next
    case False
    obtain r where r: "join_comma (stringify_members ps) = CHR 0x22 # r"
      using member_text_head [OF False] by blast
    have l: "length (join_comma (stringify_members ps)) + 2 \<le> n" using fuel n by simp
    have d: "distinct (map fst [] @ map fst (json_members ps))"
      using di by (simp add: json_members_keys distinct_map_filter)
    have "parse_value (Suc n) (CHR ''{'' # CHR 0x22 # r @ CHR ''}'' # rest)
            = parse_members n [] (CHR 0x22 # r @ CHR ''}'' # rest)"
      by (rule parse_value_object)
    also have "\<dots> = Some (JObj ([] @ json_members ps), rest)"
      using ih [OF False wf d b l] r by simp
    finally show ?thesis using n r by simp
  qed
qed

lemma parse_stringify:
  "\<And>fuel rest text. JSON_stringify v = Some text \<Longrightarrow> well_formed v \<Longrightarrow> boundary rest
      \<Longrightarrow> length text < fuel \<Longrightarrow> parse_value fuel (text @ rest) = Some (json_image v, rest)"
  and "\<And>fuel acc rest. xs \<noteq> [] \<Longrightarrow> wf_elements xs \<Longrightarrow> boundary rest
      \<Longrightarrow> length (join_comma (stringify_elements xs)) + 2 \<le> fuel
      \<Longrightarrow> parse_elements fuel acc (join_comma (stringify_elements xs) @ CHR '']'' # rest)
            = Some (JArr (acc @ json_elements xs), rest)"
  and "\<And>fuel acc rest. stringify_members ps \<noteq> [] \<Longrightarrow> wf_members ps
      \<Longrightarrow> distinct (map fst acc @ map fst (json_members ps)) \<Longrightarrow> boundary rest
      \<Longrightarrow> length (join_comma (stringify_members ps)) + 2 \<le> fuel
      \<Longrightarrow> parse_members fuel acc (join_comma (stringify_members ps) @ CHR ''}'' # rest)
            = Some (JObj (acc @ json_members ps), rest)"
proof (induction v and xs and ps rule: JSON_stringify_stringify_elements_stringify_members.induct)
  case 1
  then show ?case by simp
next
  case 2
  obtain n where "fuel = Suc n" using 2(4) by (cases fuel) auto
  then show ?case using 2(1) parse_value_null [of n rest] by auto
next
  case (3 b)
  obtain n where "fuel = Suc n" using 3(4) by (cases fuel) auto
  then show ?case using 3(1) parse_value_true [of n rest] parse_value_false [of n rest]
    by (cases b) auto
next
  case (4 i)
  obtain n where n: "fuel = Suc n" using 4(4) by (cases fuel) auto
  obtain c cs where h: "show_int i = c # cs" "c = CHR ''-'' \<or> is_digit c"
    using show_int_head by blast
  have "parse_value (Suc n) (c # cs @ rest) = parse_number (c # cs @ rest)"
    by (rule parse_value_number [OF h(2)])
  then show ?case using 4(1) n h(1) parse_number_show_int [OF 4(3), of i] by auto
next
  case (5 s)
  obtain n where n: "fuel = Suc n" using 5(4) by (cases fuel) auto
  show ?case
    using 5(1) n parse_value_string [of n "concat (map quote_char s) @ CHR 0x22 # rest"]
      parse_chars_quoted [of "[]" s rest]
    by (auto simp: quote_def)
next
  case (6 xs)
  have t: "text = CHR ''['' # join_comma (stringify_elements xs) @ '']''" using 6(2) by simp
  show ?case
    unfolding t using parse_value_array_text [OF 6(1) _ 6(4)] 6(3,5) t by simp
next
  case (7 ps)
  have t: "text = CHR ''{'' # join_comma (stringify_members ps) @ ''}''" using 7(2) by simp
  show ?case
    unfolding t using parse_value_object_text [OF 7(1) _ _ 7(4)] 7(3,5) t by simp
next
  case (8 m ps)
  have t: "text = CHR ''{'' # join_comma (stringify_members ps) @ ''}''" using 8(2) by simp
  show ?case
    unfolding t using parse_value_object_text [OF 8(1) _ _ 8(4)] 8(3,5) t by simp
next
  case 9
  then show ?case by simp
next
  case (10 x xs)
  show ?case
    by (rule parse_elements_cons [OF 10(1) 10(2) 10(4) 10(5) 10(6)])
next
  case 11
  then show ?case by simp
next
  case (12 k v ps)
  have ihps: "\<And>fuel acc rest. stringify_members ps \<noteq> [] \<Longrightarrow> wf_members ps
                 \<Longrightarrow> distinct (map fst acc @ map fst (json_members ps)) \<Longrightarrow> boundary rest
                 \<Longrightarrow> length (join_comma (stringify_members ps)) + 2 \<le> fuel
                 \<Longrightarrow> parse_members fuel acc (join_comma (stringify_members ps) @ CHR ''}'' # rest)
                       = Some (JObj (acc @ json_members ps), rest)"
    using 12(2) 12(3) by (cases "JSON_stringify v") blast+
  show ?case
    by (rule parse_members_cons [OF 12(1) ihps 12(4) 12(5) 12(6) 12(7) 12(8)])
qed

text \<open>
  Every well-formed value other than \<open>undefined\<close> has a text, and the parser, with the fuel
  \<open>JSON_parse\<close> gives it, returns the image of the value from that text.
\<close>

lemma JSON_round_trip:
  assumes "JSON_stringify v = Some text" "well_formed v"
  shows "JSON_parse text = Some (json_image v)"
proof -
  have "parse_value (Suc (length text)) (text @ []) = Some (json_image v, [])"
    by (rule parse_stringify(1) [OF assms]) (simp_all add: boundary_def)
  then show ?thesis by (simp add: JSON_parse_def skip_ws_def)
qed

subsection \<open>What the input and output operations leave unchanged\<close>

lemma logger_frame_refl: "logger_frame w w"
  by (simp add: logger_frame_def)

lemma logger_frame_trans: "logger_frame w w1 \<Longrightarrow> logger_frame w1 w2 \<Longrightarrow> logger_frame w w2"
  by (simp add: logger_frame_def)

lemma frame_log: "logger_frame w (log a v t w)"
  by (simp add: logger_frame_def log_def split: option.splits)

lemma frame_unexpected: "logger_frame w (unexpected env e w)"
  by (simp add: logger_frame_def unexpected_def console_error_def record_io_def log_def split: option.splits)

lemma frame_readFile: "readFile d n w = Inr (c, w1) \<Longrightarrow> logger_frame w w1"
  by (auto simp: logger_frame_def readFile_def record_io_def split: node.splits option.splits entry.splits)

lemma frame_unlink: "unlink d n w = Inr w1 \<Longrightarrow> logger_frame w w1"
  by (auto simp: logger_frame_def unlink_def record_io_def split: node.splits option.splits entry.splits)

lemma frame_writeFile: "writeFile d n c w = Inr w1 \<Longrightarrow> logger_frame w w1"
  by (auto simp: logger_frame_def writeFile_def record_io_def split: node.splits option.splits entry.splits)

lemma frame_ensureDir: "ensureDir d w = Inr w1 \<Longrightarrow> logger_frame w w1"
  by (auto simp: logger_frame_def ensureDir_def record_io_def split: node.splits)

lemma frame_readdir: "readdir d w = Inr (ns, w1) \<Longrightarrow> logger_frame w w1"
  by (auto simp: logger_frame_def readdir_def record_io_def split: node.splits)

lemma frame_push: "logger_frame w (w\<lparr>logQueue := q\<rparr>)"
  by (simp add: logger_frame_def)

lemma frame_read_done: "logger_frame w (fst (read_done env d n w))"
proof (cases "readFile d n w")
  case (Inl e)
  then show ?thesis by (simp add: read_done_def frame_unexpected)
next
  case (Inr cw)
  obtain c w1 where cw: "cw = (c, w1)" by (cases cw)
  have f1: "logger_frame w w1" using Inr cw frame_readFile by blast
  show ?thesis
  proof (cases "JSON_parse c")
    case None
    then show ?thesis
      using Inr cw f1 by (auto simp: read_done_def intro: logger_frame_trans frame_unexpected)
  next
    case (Some v)
    then show ?thesis
      using Inr cw f1 by (auto simp: read_done_def intro: logger_frame_trans frame_push)
  qed
qed

lemma frame_unlink_done: "logger_frame w (unlink_done env d n w)"
  using frame_unlink [of d n w] by (auto simp: unlink_done_def frame_unexpected split: sum.splits)

lemma frame_resume: "logger_frame w (fst (resume env d p w))"
  by (cases p) (simp_all add: frame_read_done frame_unlink_done)

text \<open>
  What every step of a callback keeps, \<^verbatim>\<open>Promise.all\<close> keeps, in whatever order the
  callbacks go on.
\<close>

lemma run_callbacks_keeps:
  "(\<And>p w'. I w' \<Longrightarrow> I (fst (resume env d p w'))) \<Longrightarrow> I w \<Longrightarrow> I (run_callbacks env d picks ps w)"
proof (induction env d picks ps w rule: run_callbacks.induct)
  case (1 env d picks ps w)
  show ?case
  proof (cases "ps = []")
    case True
    then show ?thesis using "1.prems"(2) by (subst run_callbacks.simps) simp
  next
    case False
    have "I (fst (resume env d (ps ! (next_pick picks mod length ps)) w))"
      by (rule "1.prems"(1) [OF "1.prems"(2)])
    from "1.IH" [OF False "1.prems"(1) this] show ?thesis
      using False by (subst run_callbacks.simps) simp
  qed
qed

lemma frame_run_callbacks: "logger_frame w (run_callbacks env d picks ps w)"
proof (rule run_callbacks_keeps)
  show "logger_frame w w" by (rule logger_frame_refl)
  show "logger_frame w (fst (resume env d p w'))" if "logger_frame w w'" for p w'
    using that frame_resume by (rule logger_frame_trans)
qed

lemma frame_load_failed: "logger_frame w (load_failed e w)"
  by (simp add: logger_frame_def load_failed_def console_error_def record_io_def)

lemma frame_loadLogFiles: "logger_frame w (loadLogFiles env w)"
proof (cases "option_get w ''logPath''")
  case None
  then show ?thesis by (simp add: loadLogFiles_def frame_load_failed)
next
  case (Some p)
  show ?thesis
  proof (cases p)
    case (JStr d)
    show ?thesis
    proof (cases "ensureDir d w")
      case (Inl e)
      then show ?thesis using Some JStr by (simp add: loadLogFiles_def frame_load_failed)
    next
      case (Inr w1)
      note e1 = Inr
      have f1: "logger_frame w w1" using frame_ensureDir [OF Inr] .
      show ?thesis
      proof (cases "readdir d w1")
        case (Inl e)
        then show ?thesis using Some JStr e1 f1
          by (auto simp: loadLogFiles_def intro: logger_frame_trans frame_load_failed)
      next
        case (Inr nw)
        obtain ns w2 where nw: "nw = (ns, w2)" by (cases nw)
        have f2: "logger_frame w w2" using f1 frame_readdir Inr nw logger_frame_trans by blast
        show ?thesis using Some JStr e1 Inr nw f2
          by (auto simp: loadLogFiles_def intro: logger_frame_trans frame_run_callbacks)
      qed
    qed
  qed (use Some in \<open>simp_all add: loadLogFiles_def frame_load_failed\<close>)
qed

lemma frame_sendLogToServer: "logger_frame w (sendLogToServer env v w)"
  by (simp add: logger_frame_def sendLogToServer_def record_io_def Let_def split: option.splits)

lemma frame_sendLogToFile: "logger_frame w (sendLogToFile env v w)"
proof -
  have "\<And>d n c. logger_frame w (case writeFile d n c w of Inl e \<Rightarrow> console_error [e] w | Inr w1 \<Rightarrow> w1)"
    using frame_writeFile
    by (auto simp: logger_frame_def console_error_def record_io_def split: sum.splits)
  then show ?thesis
    by (auto simp: sendLogToFile_def Let_def console_error_def record_io_def logger_frame_refl
        split: option.splits jsval.splits) (simp_all add: logger_frame_def)
qed

subsection \<open>What the input and output operations add\<close>

lemma grows_refl: "grows w w"
  by (simp add: grows_def)

lemma grows_trans:
  assumes "grows w w1" "grows w1 w2"
  shows "grows w w2"
proof -
  obtain vs xs where 1: "logQueue w1 = logQueue w @ vs" "list_all truthy vs"
    "trace w1 = trace w @ xs" "list_all (\<lambda>x. \<not> is_write x) xs"
    using assms(1) unfolding grows_def by blast
  obtain vs' xs' where 2: "logQueue w2 = logQueue w1 @ vs'" "list_all truthy vs'"
    "trace w2 = trace w1 @ xs'" "list_all (\<lambda>x. \<not> is_write x) xs'"
    using assms(2) unfolding grows_def by blast
  have "logQueue w2 = logQueue w @ (vs @ vs') \<and> list_all truthy (vs @ vs')"
    using 1 2 by simp
  moreover have "trace w2 = trace w @ (xs @ xs') \<and> list_all (\<lambda>x. \<not> is_write x) (xs @ xs')"
    using 1 2 by simp
  ultimately show ?thesis unfolding grows_def by blast
qed

lemma grows_log: "grows w (log a v t w)"
  by (simp add: grows_def log_def split: option.splits)

lemma grows_unexpected: "grows w (unexpected env e w)"
  by (simp add: grows_def unexpected_def console_error_def record_io_def log_def split: option.splits)

lemma grows_readFile: "readFile d n w = Inr (c, w1) \<Longrightarrow> grows w w1"
  by (auto simp: grows_def readFile_def record_io_def split: node.splits option.splits entry.splits)

lemma grows_unlink: "unlink d n w = Inr w1 \<Longrightarrow> grows w w1"
  by (auto simp: grows_def unlink_def record_io_def split: node.splits option.splits entry.splits)

lemma grows_ensureDir: "ensureDir d w = Inr w1 \<Longrightarrow> grows w w1"
  by (auto simp: grows_def ensureDir_def record_io_def split: node.splits)

lemma grows_readdir: "readdir d w = Inr (ns, w1) \<Longrightarrow> grows w w1"
  by (auto simp: grows_def readdir_def record_io_def split: node.splits)

lemma grows_push: "truthy v \<Longrightarrow> grows w (w\<lparr>logQueue := logQueue w @ [v]\<rparr>)"
  by (simp add: grows_def)

lemma grows_load_failed: "grows w (load_failed e w)"
  by (simp add: grows_def load_failed_def console_error_def record_io_def)

lemma grows_read_done: "grows w (fst (read_done env d n w))"
proof (cases "readFile d n w")
  case (Inl e)
  then show ?thesis by (simp add: read_done_def grows_unexpected)
next
  case (Inr cw)
  obtain c w1 where cw: "cw = (c, w1)" by (cases cw)
  have f1: "grows w w1" using Inr cw grows_readFile by blast
  show ?thesis
  proof (cases "JSON_parse c")
    case None
    then show ?thesis
      using Inr cw f1 by (auto simp: read_done_def intro: grows_trans grows_unexpected)
  next
    case (Some v)
    then show ?thesis
      using Inr cw f1 by (auto simp: read_done_def intro: grows_trans grows_push)
  qed
qed

lemma grows_unlink_done: "grows w (unlink_done env d n w)"
  using grows_unlink [of d n w] by (auto simp: unlink_done_def grows_unexpected split: sum.splits)

lemma grows_resume: "grows w (fst (resume env d p w))"
  by (cases p) (simp_all add: grows_read_done grows_unlink_done)

lemma grows_run_callbacks: "grows w (run_callbacks env d picks ps w)"
proof (rule run_callbacks_keeps)
  show "grows w w" by (rule grows_refl)
  show "grows w (fst (resume env d p w'))" if "grows w w'" for p w'
    using that grows_resume by (rule grows_trans)
qed

lemma grows_loadLogFiles: "grows w (loadLogFiles env w)"
proof (cases "option_get w ''logPath''")
  case None
  then show ?thesis by (simp add: loadLogFiles_def grows_load_failed)
next
  case (Some p)
  show ?thesis
  proof (cases p)
    case (JStr d)
    show ?thesis
    proof (cases "ensureDir d w")
      case (Inl e)
      then show ?thesis using Some JStr by (simp add: loadLogFiles_def grows_load_failed)
    next
      case (Inr w1)
      note e1 = Inr
      have f1: "grows w w1" using grows_ensureDir [OF Inr] .
      show ?thesis
      proof (cases "readdir d w1")
        case (Inl e)
        then show ?thesis using Some JStr e1 f1
          by (auto simp: loadLogFiles_def intro: grows_trans grows_load_failed)
      next
        case (Inr nw)
        obtain ns w2 where nw: "nw = (ns, w2)" by (cases nw)
        have f2: "grows w w2" using f1 grows_readdir Inr nw grows_trans by blast
        show ?thesis using Some JStr e1 Inr nw f2
          by (auto simp: loadLogFiles_def intro: grows_trans grows_run_callbacks)
      qed
    qed
  qed (use Some in \<open>simp_all add: loadLogFiles_def grows_load_failed\<close>)
qed

lemma grows_sendLogToServer: "truthy v \<Longrightarrow> grows w (sendLogToServer env v w)"
  by (auto simp: grows_def sendLogToServer_def record_io_def Let_def split: option.splits)

lemma sendLogToFile_queue: "logQueue (sendLogToFile env v w) = logQueue w"
  by (auto simp: sendLogToFile_def Let_def console_error_def record_io_def writeFile_def
      split: option.splits jsval.splits sum.splits node.splits entry.splits)

lemma sendLogToServer_queue:
  "request_fails env \<Longrightarrow> logQueue (sendLogToServer env v w) = logQueue w @ [v]"
  by (auto simp: sendLogToServer_def record_io_def Let_def split: option.splits)

lemma grows_queue_truthy: "grows w w' \<Longrightarrow> queue_truthy w \<Longrightarrow> queue_truthy w'"
  by (auto simp: grows_def queue_truthy_def)

lemma grows_no_write: "grows w w' \<Longrightarrow> no_write w \<Longrightarrow> no_write w'"
  by (auto simp: grows_def no_write_def)

subsection \<open>Configuration\<close>

text \<open>
  Claim C2, on two calls of \<^verbatim>\<open>setOptions\<close> before \<^verbatim>\<open>run\<close>. The first call supplies the optional
  field \<^verbatim>\<open>networkCheckInterval: 5\<close>, the second call leaves it out. The claim promises the
  default 1000 after the second call, which is what the defaults overlaid with the second
  call's fields hold; the options hold 5, the value of the first call, because
  \<^verbatim>\<open>Object.assign\<close> has written the first call's fields into \<^verbatim>\<open>defaultOptions\<close> itself.
\<close>

theorem setOptions_keeps_earlier_field:
  "option_get (exec fresh [SetOptions first_options, SetOptions example_options])
       ''networkCheckInterval'' = Some (JNum 5)
   \<and> obj_get (obj_assign (defaultOptions fresh) example_options) ''networkCheckInterval'' = JNum 1000"
  by (simp add: logger_defs)

subsection \<open>Logging before configuration\<close>

text \<open>
  Claim C7: while no configuration has been set (\<^verbatim>\<open>this.options\<close> is undefined), a call of
  \<^verbatim>\<open>log\<close> returns normally and changes nothing: the queue, and every other part of the state,
  is as before.
\<close>

theorem log_unconfigured: "options w = None \<Longrightarrow> log action val t w = w"
  by (simp add: log_def)

theorem log_unconfigured_witness:
  "options fresh = None \<and> logQueue (log ''click'' JUndefined 1700 fresh) = []"
  using log_unconfigured [of fresh "''click''" JUndefined 1700]
  by (simp add: fresh_def initial_def)

subsection \<open>The connectivity timer\<close>

text \<open>
  Claim C3 says that a failing probe leaves no exception in the callback and makes the cached
  flag false. On the code, in the state after \<^verbatim>\<open>run\<close>, a rejecting probe makes the promise of
  the callback reject, and the flag is still true.
\<close>

theorem probe_failure_counterexample:
  "fst (connection_tick (Rejects TypeError) started) = Rejects TypeError
   \<and> isInternetConnected (snd (connection_tick (Rejects TypeError) started)) = True"
  by (simp add: connection_tick_def started_def logger_defs)

text \<open>
  Claim C3 as amended: when the probe rejects, the callback does not catch it; its promise
  rejects with the error of the probe, and the state, the cached flag with it, is unchanged.
\<close>

theorem probe_rejection_escapes: "connection_tick (Rejects e) w = (Rejects e, w)"
  by (simp add: connection_tick_def)

subsection \<open>Starting and restarting the timers\<close>

lemma probe_or_dispatch: "is_probe it \<or> is_dispatch it"
  by (cases it rule: is_probe.cases) simp_all

lemma timers_owned_frame: "logger_frame w w' \<Longrightarrow> timers_owned w \<Longrightarrow> timers_owned w'"
  by (simp add: logger_frame_def timers_owned_def handle_ok_def)

lemma no_handles_no_timers:
  assumes "timers_owned w" "connectionCheckInterval w = None" "queueCheckInterval w = None"
  shows "timers w = []"
proof (cases "timers w")
  case Nil
  then show ?thesis .
next
  case (Cons it ts)
  then have "it \<in> set (timers w)" by simp
  then have "is_probe it \<longrightarrow> False" "is_dispatch it \<longrightarrow> False"
    using assms by (auto simp: timers_owned_def list_all_iff)
  then show ?thesis using probe_or_dispatch [of it] by blast
qed

lemma stop_clears:
  assumes "timers_owned w"
  shows "timers (stop w) = []"
proof -
  have own: "\<forall>it \<in> set (timers w).
          connectionCheckInterval w = Some (fst it) \<or> queueCheckInterval w = Some (fst it)"
    using assms probe_or_dispatch by (auto simp: timers_owned_def list_all_iff)
  show ?thesis
  proof (cases "connectionCheckInterval w")
    case None
    then show ?thesis using own no_handles_no_timers [OF assms]
      by (cases "queueCheckInterval w") (auto simp: stop_def clearInterval_def filter_empty_conv)
  next
    case (Some i)
    then show ?thesis using own
      by (cases "queueCheckInterval w") (auto simp: stop_def clearInterval_def filter_empty_conv)
  qed
qed

lemma stop_frame:
  "next_timer (stop w) = next_timer w \<and> options (stop w) = options w
   \<and> defaultOptions (stop w) = defaultOptions w"
  by (simp add: stop_def clearInterval_def split: option.splits)

lemma run_result:
  assumes inv: "timers_owned w" and cfg: "options w \<noteq> None"
  shows "\<exists>w1 ms ms'. run w = Inr w1
           \<and> timers w1 = [(next_timer w, ProbeTimer ms), (Suc (next_timer w), DispatchTimer ms')]
           \<and> next_timer w1 = Suc (Suc (next_timer w))
           \<and> connectionCheckInterval w1 = Some (next_timer w)
           \<and> queueCheckInterval w1 = Some (Suc (next_timer w))
           \<and> options w1 = options w"
proof -
  let ?w0 = "if truthy_handle (queueCheckInterval w) \<or> truthy_handle (connectionCheckInterval w)
             then stop w else w"
  have t0: "timers ?w0 = []"
  proof (cases "truthy_handle (queueCheckInterval w) \<or> truthy_handle (connectionCheckInterval w)")
    case True
    then show ?thesis using stop_clears [OF inv] by simp
  next
    case False
    then have "connectionCheckInterval w = None" "queueCheckInterval w = None"
      using inv by (auto simp: truthy_handle_def timers_owned_def handle_ok_def split: option.splits)
    then show ?thesis using False no_handles_no_timers [OF inv] by simp
  qed
  have n0: "next_timer ?w0 = next_timer w" "options ?w0 = options w"
    using stop_frame by auto
  obtain r where r: "options w = Some r" using cfg by auto
  show ?thesis
    using t0 n0 r
    by (cases r)
       (auto simp: run_def checkInternetConnected_def checkLoggerQueue_def option_get_def
          setInterval_def split: if_splits)
qed

lemma timers_owned_run:
  assumes "timers_owned w" "run w = Inr w1"
  shows "timers_owned w1"
proof -
  have "options w \<noteq> None" using assms(2) by (auto simp: run_def split: option.splits)
  from run_result [OF assms(1) this] assms(2) show ?thesis
    using assms(1) by (auto simp: timers_owned_def handle_ok_def)
qed

lemma timers_owned_stop: "timers_owned w \<Longrightarrow> timers_owned (stop w)"
  by (auto simp: timers_owned_def handle_ok_def stop_def clearInterval_def list_all_iff
      split: option.splits)

text \<open>A firing of the dispatch timer changes neither the timers nor the configuration.\<close>

lemma frame_queue_tick:
  "timers (snd (queue_tick env w)) = timers w
   \<and> next_timer (snd (queue_tick env w)) = next_timer w
   \<and> connectionCheckInterval (snd (queue_tick env w)) = connectionCheckInterval w
   \<and> queueCheckInterval (snd (queue_tick env w)) = queueCheckInterval w
   \<and> options (snd (queue_tick env w)) = options w
   \<and> defaultOptions (snd (queue_tick env w)) = defaultOptions w
   \<and> isInternetConnected (snd (queue_tick env w)) = isInternetConnected w"
proof (cases "logQueue w")
  case Nil
  then show ?thesis by (simp add: queue_tick_def)
next
  case (Cons v rest)
  have a: "logger_frame (w\<lparr>logQueue := rest\<rparr>) (sendLogToServer env v (w\<lparr>logQueue := rest\<rparr>))"
    by (rule frame_sendLogToServer)
  have b: "logger_frame (w\<lparr>logQueue := rest, lastInternetConnectedFlag := False\<rparr>)
             (sendLogToFile env v (w\<lparr>logQueue := rest, lastInternetConnectedFlag := False\<rparr>))"
    by (rule frame_sendLogToFile)
  let ?l = "(loadLogFiles env (w\<lparr>logQueue := rest\<rparr>))\<lparr>lastInternetConnectedFlag := True\<rparr>"
  have c: "logger_frame (w\<lparr>logQueue := rest\<rparr>) (loadLogFiles env (w\<lparr>logQueue := rest\<rparr>))"
    by (rule frame_loadLogFiles)
  have d: "logger_frame ?l (sendLogToServer env v ?l)"
    by (rule frame_sendLogToServer)
  show ?thesis
    using Cons a b c d by (simp add: queue_tick_def logger_frame_def)
qed

lemma timers_owned_step: "timers_owned w \<Longrightarrow> timers_owned (step w ev)"
proof (cases ev)
  case (SetOptions x)
  then show "timers_owned w \<Longrightarrow> ?thesis"
    by (auto simp: setOptions_def timers_owned_def handle_ok_def split: if_splits)
next
  case Run
  then show "timers_owned w \<Longrightarrow> ?thesis"
    using timers_owned_run by (auto split: sum.splits)
next
  case Stop
  then show "timers_owned w \<Longrightarrow> ?thesis" by (simp add: timers_owned_stop)
next
  case (Log a v t)
  then show "timers_owned w \<Longrightarrow> ?thesis"
    using timers_owned_frame [OF frame_log] by simp
next
  case (ConnectionTick p)
  then show "timers_owned w \<Longrightarrow> ?thesis"
    by (auto simp: connection_tick_def timers_owned_def handle_ok_def split: settled.splits)
next
  case (QueueTick env)
  then show "timers_owned w \<Longrightarrow> ?thesis"
    using frame_queue_tick [of env w] by (auto simp: timers_owned_def handle_ok_def)
qed

lemma timers_owned_exec: "timers_owned w \<Longrightarrow> timers_owned (exec w evs)"
  unfolding exec_def by (induction evs arbitrary: w) (simp_all add: timers_owned_step)

lemma timers_owned_initial: "timers_owned (initial os disk)"
  by (simp add: timers_owned_def handle_ok_def initial_def)

text \<open>
  Claim C6: in every state the program can reach in which a configuration is set, whatever
  timers are active, \<^verbatim>\<open>run\<close> returns and leaves exactly one timer of the connectivity callback
  and one of the dispatch callback, none of them a timer that was active before; and a
  second \<^verbatim>\<open>run\<close> right after it does the same, so that two calls in succession leave one
  timer of each kind.
\<close>

theorem run_restarts_timers:
  assumes "options (exec (initial os disk) evs) \<noteq> None"
  shows "\<exists>w1 w2. run (exec (initial os disk) evs) = Inr w1
           \<and> length (filter is_probe (timers w1)) = 1
           \<and> length (filter is_dispatch (timers w1)) = 1
           \<and> set (timers w1) \<inter> set (timers (exec (initial os disk) evs)) = {}
           \<and> run w1 = Inr w2
           \<and> length (filter is_probe (timers w2)) = 1
           \<and> length (filter is_dispatch (timers w2)) = 1
           \<and> set (timers w2) \<inter> set (timers w1) = {}"
proof -
  let ?w = "exec (initial os disk) evs"
  have inv: "timers_owned ?w"
    by (rule timers_owned_exec [OF timers_owned_initial])
  from run_result [OF inv assms] obtain w1 ms ms' where
    r1: "run ?w = Inr w1"
    and t1: "timers w1 = [(next_timer ?w, ProbeTimer ms), (Suc (next_timer ?w), DispatchTimer ms')]"
    and n1: "next_timer w1 = Suc (Suc (next_timer ?w))"
    and o1: "options w1 = options ?w"
    by blast
  have inv1: "timers_owned w1" using timers_owned_run [OF inv r1] .
  have cfg1: "options w1 \<noteq> None" using o1 assms by simp
  from run_result [OF inv1 cfg1] obtain w2 ks ks' where
    r2: "run w1 = Inr w2"
    and t2: "timers w2 = [(next_timer w1, ProbeTimer ks), (Suc (next_timer w1), DispatchTimer ks')]"
    by blast
  have old: "\<And>i t. (i, t) \<in> set (timers ?w) \<Longrightarrow> i < next_timer ?w"
    using inv probe_or_dispatch
    by (fastforce simp: timers_owned_def handle_ok_def list_all_iff split: option.splits)
  have d1: "set (timers w1) \<inter> set (timers ?w) = {}"
    using t1 old by fastforce
  have d2: "set (timers w2) \<inter> set (timers w1) = {}"
    using t1 t2 n1 by auto
  show ?thesis using r1 r2 t1 t2 d1 d2 by simp
qed

theorem run_restarts_timers_witness:
  "options (exec (initial ''Linux'' no_disk) [SetOptions example_options, Run]) \<noteq> None
   \<and> (\<exists>w1 w2. run (exec (initial ''Linux'' no_disk) [SetOptions example_options, Run]) = Inr w1
         \<and> length (filter is_probe (timers w1)) = 1
         \<and> length (filter is_dispatch (timers w1)) = 1
         \<and> set (timers w1) \<inter> set (timers (exec (initial ''Linux'' no_disk) [SetOptions example_options, Run])) = {}
         \<and> run w1 = Inr w2
         \<and> length (filter is_probe (timers w2)) = 1
         \<and> length (filter is_dispatch (timers w2)) = 1
         \<and> set (timers w2) \<inter> set (timers w1) = {})"
proof -
  have h: "options (exec (initial ''Linux'' no_disk) [SetOptions example_options, Run]) \<noteq> None"
    by (simp add: logger_defs)
  show ?thesis using h run_restarts_timers [OF h] by blast
qed

subsection \<open>The dispatch timer\<close>

text \<open>
  What \<^verbatim>\<open>run\<close> leaves as it is, and the steps that touch neither the flag of the last
  connectivity nor the file system nor the record of inputs and outputs: all but the firings
  of the dispatch timer that find a value in the queue.
\<close>

lemma run_keeps:
  "run w = Inr w1 \<Longrightarrow>
     logQueue w1 = logQueue w \<and> lastInternetConnectedFlag w1 = lastInternetConnectedFlag w
     \<and> isInternetConnected w1 = isInternetConnected w \<and> fs w1 = fs w \<and> trace w1 = trace w"
  by (auto simp: run_def checkInternetConnected_def checkLoggerQueue_def setInterval_def
      stop_def clearInterval_def split: option.splits sum.splits if_splits)

lemma quiet_step:
  "(lastInternetConnectedFlag (step w ev) = lastInternetConnectedFlag w
      \<and> fs (step w ev) = fs w \<and> trace (step w ev) = trace w)
   \<or> (\<exists>env e rest. ev = QueueTick env \<and> logQueue w = e # rest)"
proof (cases ev)
  case (SetOptions x)
  then show ?thesis by (auto simp: setOptions_def split: if_splits)
next
  case Run
  then show ?thesis using run_keeps [of w] by (auto split: sum.splits)
next
  case Stop
  then show ?thesis by (simp add: stop_def clearInterval_def split: option.splits)
next
  case (Log a v t)
  then show ?thesis by (simp add: log_def split: option.splits)
next
  case (ConnectionTick p)
  then show ?thesis by (cases p) (auto simp: connection_tick_def)
next
  case (QueueTick env)
  then show ?thesis by (cases "logQueue w") (auto simp: queue_tick_def)
qed

text \<open>
  Claim C5: when the queue is empty, a firing of the dispatch timer changes nothing. The
  state after it is the state before it, so no file was read, written or removed, no request
  was sent, and the flag of the last connectivity is as it was. And whatever happens to the
  logger, the flag, the file system and the record of inputs and outputs change only when
  what happens is a firing of the dispatch timer that pops a value.
\<close>

theorem empty_queue_tick:
  "(logQueue w = [] \<longrightarrow> queue_tick env w = (Resolves (), w))
   \<and> (\<forall>ev. (lastInternetConnectedFlag (step w ev) = lastInternetConnectedFlag w
              \<and> fs (step w ev) = fs w \<and> trace (step w ev) = trace w)
           \<or> (\<exists>env' e rest. ev = QueueTick env' \<and> logQueue w = e # rest))"
  using quiet_step [of w] by (simp add: queue_tick_def)

theorem empty_queue_tick_witness:
  "logQueue started = []
   \<and> queue_tick calm started = (Resolves (), started)
   \<and> trace (snd (queue_tick calm started)) = []
   \<and> lastInternetConnectedFlag (snd (queue_tick calm started)) = False
   \<and> (\<forall>ev. (lastInternetConnectedFlag (step started ev) = lastInternetConnectedFlag started
              \<and> fs (step started ev) = fs started \<and> trace (step started ev) = trace started)
           \<or> (\<exists>env' e rest. ev = QueueTick env' \<and> logQueue started = e # rest))"
proof -
  have h: "logQueue started = []" by (simp add: started_def logger_defs)
  have t: "trace started = [] \<and> lastInternetConnectedFlag started = False"
    by (simp add: started_def logger_defs)
  show ?thesis
    using h t empty_queue_tick [of started calm] by simp
qed

text \<open>What a firing of the dispatch timer does when it pops a truthy value.\<close>

lemma queue_tick_connected:
  assumes "logQueue w = e # rest" "truthy e" "isInternetConnected w"
  shows "queue_tick env w =
           (Resolves (),
            sendLogToServer env e
              (if lastInternetConnectedFlag w then w\<lparr>logQueue := rest\<rparr>
               else (loadLogFiles env (w\<lparr>logQueue := rest\<rparr>))\<lparr>lastInternetConnectedFlag := True\<rparr>))"
  using assms by (simp add: queue_tick_def)

lemma queue_tick_offline:
  assumes "logQueue w = e # rest" "truthy e" "\<not> isInternetConnected w"
  shows "queue_tick env w =
           (Resolves (),
            sendLogToFile env e (w\<lparr>logQueue := rest, lastInternetConnectedFlag := False\<rparr>))"
  using assms by (simp add: queue_tick_def)

lemma grows_flag: "grows w w' \<Longrightarrow> grows w (w'\<lparr>lastInternetConnectedFlag := b\<rparr>)"
  by (simp add: grows_def)

lemma reload_grows:
  "grows (w\<lparr>logQueue := rest\<rparr>)
     (if lastInternetConnectedFlag w then w\<lparr>logQueue := rest\<rparr>
      else (loadLogFiles env (w\<lparr>logQueue := rest\<rparr>))\<lparr>lastInternetConnectedFlag := True\<rparr>)"
  by (simp add: grows_refl grows_flag grows_loadLogFiles)

lemma queue_tick_connected_grows:
  assumes "logQueue w = e # rest" "truthy e" "isInternetConnected w"
  shows "grows (w\<lparr>logQueue := rest\<rparr>) (snd (queue_tick env w))"
proof -
  let ?w1 = "if lastInternetConnectedFlag w then w\<lparr>logQueue := rest\<rparr>
             else (loadLogFiles env (w\<lparr>logQueue := rest\<rparr>))\<lparr>lastInternetConnectedFlag := True\<rparr>"
  have t: "snd (queue_tick env w) = sendLogToServer env e ?w1"
    using queue_tick_connected [OF assms, of env] by simp
  have a: "grows (w\<lparr>logQueue := rest\<rparr>) ?w1"
    by (rule reload_grows)
  have b: "grows ?w1 (sendLogToServer env e ?w1)"
    by (rule grows_sendLogToServer [OF assms(2)])
  show ?thesis unfolding t by (rule grows_trans [OF a b])
qed

lemma queue_tick_keeps_rest:
  assumes "logQueue w = e # rest"
  shows "\<exists>vs. logQueue (snd (queue_tick env w)) = rest @ vs"
proof (cases "truthy e")
  case False
  then show ?thesis using assms by (simp add: queue_tick_def)
next
  case True
  show ?thesis
  proof (cases "isInternetConnected w")
    case True
    from queue_tick_connected_grows [OF assms \<open>truthy e\<close> True, of env]
    show ?thesis by (auto simp: grows_def)
  next
    case False
    then show ?thesis
      using queue_tick_offline [OF assms True False, of env] by (simp add: sendLogToFile_queue)
  qed
qed

lemma queue_tick_queue_truthy: "queue_truthy w \<Longrightarrow> queue_truthy (snd (queue_tick env w))"
proof (cases "logQueue w")
  case Nil
  then show "queue_truthy w \<Longrightarrow> ?thesis" by (simp add: queue_tick_def)
next
  case (Cons e rest)
  assume q: "queue_truthy w"
  then have te: "truthy e" and tr: "queue_truthy (w\<lparr>logQueue := rest\<rparr>)"
    using Cons by (simp_all add: queue_truthy_def)
  show ?thesis
  proof (cases "isInternetConnected w")
    case True
    from queue_tick_connected_grows [OF Cons te True, of env] tr
    show ?thesis by (rule grows_queue_truthy)
  next
    case False
    then show ?thesis
      using queue_tick_offline [OF Cons te False, of env] tr
      by (simp add: sendLogToFile_queue queue_truthy_def)
  qed
qed

lemma queue_truthy_step: "queue_truthy w \<Longrightarrow> queue_truthy (step w ev)"
proof (cases ev)
  case (SetOptions x)
  then show "queue_truthy w \<Longrightarrow> ?thesis"
    by (auto simp: setOptions_def queue_truthy_def split: if_splits)
next
  case Run
  assume q: "queue_truthy w"
  have "\<And>w1. run w = Inr w1 \<Longrightarrow> logQueue w1 = logQueue w"
    by (auto simp: run_def checkInternetConnected_def checkLoggerQueue_def setInterval_def
        stop_def clearInterval_def split: option.splits sum.splits if_splits)
  then show ?thesis using Run q by (auto simp: queue_truthy_def split: sum.splits)
next
  case Stop
  then show "queue_truthy w \<Longrightarrow> ?thesis"
    by (simp add: queue_truthy_def stop_def clearInterval_def split: option.splits)
next
  case (Log a v t)
  then show "queue_truthy w \<Longrightarrow> ?thesis"
    using grows_queue_truthy [OF grows_log] by simp
next
  case (ConnectionTick p)
  then show "queue_truthy w \<Longrightarrow> ?thesis"
    by (auto simp: connection_tick_def queue_truthy_def split: settled.splits)
next
  case (QueueTick env)
  then show "queue_truthy w \<Longrightarrow> ?thesis"
    by (simp add: queue_tick_queue_truthy)
qed

lemma queue_truthy_exec: "queue_truthy w \<Longrightarrow> queue_truthy (exec w evs)"
  unfolding exec_def by (induction evs arbitrary: w) (simp_all add: queue_truthy_step)

lemma queue_truthy_initial: "queue_truthy (initial os disk)"
  by (simp add: queue_truthy_def initial_def)

text \<open>A value in the queue stays there until a firing of the dispatch timer pops it.\<close>

lemma queued_until_popped:
  assumes "v \<in> set (logQueue w)"
  shows "v \<in> set (logQueue (step w ev)) \<or> (\<exists>env rest. ev = QueueTick env \<and> logQueue w = v # rest)"
proof (cases ev)
  case (SetOptions x)
  then show ?thesis using assms by (auto simp: setOptions_def split: if_splits)
next
  case Run
  have "\<And>w1. run w = Inr w1 \<Longrightarrow> logQueue w1 = logQueue w"
    by (auto simp: run_def checkInternetConnected_def checkLoggerQueue_def setInterval_def
        stop_def clearInterval_def split: option.splits sum.splits if_splits)
  then show ?thesis using Run assms by (auto split: sum.splits)
next
  case Stop
  then show ?thesis using assms by (simp add: stop_def clearInterval_def split: option.splits)
next
  case (Log a t val)
  then show ?thesis using assms by (simp add: log_def split: option.splits)
next
  case (ConnectionTick p)
  then show ?thesis using assms by (auto simp: connection_tick_def split: settled.splits)
next
  case (QueueTick env)
  obtain x rest where q: "logQueue w = x # rest" using assms by (cases "logQueue w") auto
  from queue_tick_keeps_rest [OF q, of env] obtain vs where
    "logQueue (snd (queue_tick env w)) = rest @ vs" by blast
  then show ?thesis using QueueTick q assms by auto
qed

text \<open>
  A value in the queue moves toward the head by one place with every firing of the dispatch
  timer that pops, and stays where it is otherwise, until it is the one popped.
\<close>

lemma step_appends: "\<not> is_pop w ev \<Longrightarrow> \<exists>vs. logQueue (step w ev) = logQueue w @ vs"
proof (cases ev)
  case (SetOptions x)
  then show ?thesis by (auto simp: setOptions_def split: if_splits)
next
  case Run
  then show ?thesis using run_keeps [of w] by (auto split: sum.splits)
next
  case Stop
  then show ?thesis by (simp add: stop_def clearInterval_def split: option.splits)
next
  case (Log a v t)
  then show ?thesis by (simp add: log_def split: option.splits)
next
  case (ConnectionTick p)
  then show ?thesis by (cases p) (auto simp: connection_tick_def)
next
  case (QueueTick env)
  assume "\<not> is_pop w ev"
  then show ?thesis using QueueTick by (auto simp: queue_tick_def)
qed

lemma step_pops:
  assumes "is_pop w ev" "logQueue w = x # xs"
  shows "\<exists>vs. logQueue (step w ev) = xs @ vs"
proof -
  obtain env where ev: "ev = QueueTick env" and act: "filter is_dispatch (timers w) \<noteq> []"
    using assms(1) by (cases ev) auto
  show ?thesis using ev act queue_tick_keeps_rest [OF assms(2), of env] by simp
qed

lemma stays_queued:
  "logQueue w = pre @ e # post \<Longrightarrow> pops w evs \<le> length pre
   \<Longrightarrow> \<exists>post'. logQueue (exec w evs) = drop (pops w evs) pre @ e # post'"
proof (induction evs arbitrary: w pre post)
  case Nil
  then show ?case by (simp add: exec_def)
next
  case (Cons ev evs)
  show ?case
  proof (cases "is_pop w ev")
    case False
    obtain vs where vs: "logQueue (step w ev) = pre @ e # (post @ vs)"
      using step_appends [OF False] Cons.prems(1) by auto
    have "pops (step w ev) evs \<le> length pre" using Cons.prems(2) False by simp
    from Cons.IH [OF vs this] show ?thesis using False by (simp add: exec_def)
  next
    case True
    then have "pops (step w ev) evs < length pre" using Cons.prems(2) by simp
    then obtain p pre' where pre: "pre = p # pre'" by (cases pre) auto
    obtain vs where vs: "logQueue (step w ev) = pre' @ e # (post @ vs)"
      using step_pops [OF True, of p "pre' @ e # post"] Cons.prems(1) pre by auto
    have "pops (step w ev) evs \<le> length pre'" using Cons.prems(2) True pre by simp
    from Cons.IH [OF vs this] show ?thesis using True pre by (simp add: exec_def)
  qed
qed

lemma popping_tick:
  assumes "logQueue w = e # post" "truthy e" "filter is_dispatch (timers w) \<noteq> []"
  shows "isInternetConnected w \<longrightarrow>
           step w (QueueTick env) =
             sendLogToServer env e
               (if lastInternetConnectedFlag w then w\<lparr>logQueue := tl (logQueue w)\<rparr>
                else (loadLogFiles env (w\<lparr>logQueue := tl (logQueue w)\<rparr>))\<lparr>lastInternetConnectedFlag := True\<rparr>)"
    and "\<not> isInternetConnected w \<longrightarrow>
           step w (QueueTick env) =
             sendLogToFile env e (w\<lparr>logQueue := tl (logQueue w), lastInternetConnectedFlag := False\<rparr>)"
  using assms by (simp_all add: queue_tick_def)

lemma requeued_state:
  "logQueue requeued = [click_event]
   \<and> pops requeued scroll_run = 0
   \<and> filter is_dispatch (timers (exec requeued scroll_run)) \<noteq> []
   \<and> isInternetConnected (exec requeued scroll_run)
   \<and> pops requeued unplug_run = 0
   \<and> filter is_dispatch (timers (exec requeued unplug_run)) \<noteq> []
   \<and> \<not> isInternetConnected (exec requeued unplug_run)"
  by code_simp

text \<open>
  Claim C4 says that an event whose delivery failed is retried on a later tick and not lost.
  On the code, with a backlog path that is a regular file: the request for the event fails
  and the event is back in the queue, one request made; then the probe stores false, the
  next firing of the dispatch timer pops the event and hands it to \<^verbatim>\<open>sendLogToFile\<close>, the
  write fails, and the event is in no queue and in no file, with still one request made.
\<close>

theorem retry_counterexample:
  "logQueue (exec (initial ''Linux'' blocked_disk) requeue_run) = [click_event]
   \<and> length (filter is_http (trace (exec (initial ''Linux'' blocked_disk) requeue_run))) = 1
   \<and> logQueue (exec (initial ''Linux'' blocked_disk) lost_run) = []
   \<and> fs (exec (initial ''Linux'' blocked_disk) lost_run) ''/tmp/x'' = NotDir
   \<and> length (filter is_http (trace (exec (initial ''Linux'' blocked_disk) lost_run))) = 1"
  by code_simp

text \<open>
  Claim C4 as amended: when the dispatch timer pops an event while the cached flag says
  connected and the request fails, the callback still resolves (nothing reaches a caller),
  and the event is the last element of the queue afterwards, behind what was queued and what
  the reload pushed. In every run from there it stays in the queue, one place nearer to the
  head with every firing that pops, and the firing that finds it at the head pops it and
  routes it by the cached flag of that moment: to \<^verbatim>\<open>sendLogToServer\<close> again when the flag is
  true, to \<^verbatim>\<open>sendLogToFile\<close> when it is false.
\<close>

theorem failed_delivery_requeued:
  assumes "logQueue w = e # rest" "truthy e" "isInternetConnected w" "request_fails env"
  shows "fst (queue_tick env w) = Resolves ()
         \<and> (\<exists>loaded.
               logQueue (snd (queue_tick env w)) = rest @ loaded @ [e]
               \<and> (\<forall>evs. pops (snd (queue_tick env w)) evs \<le> length (rest @ loaded) \<longrightarrow>
                     (\<exists>post. logQueue (exec (snd (queue_tick env w)) evs)
                               = drop (pops (snd (queue_tick env w)) evs) (rest @ loaded) @ e # post))
               \<and> (\<forall>evs env2 w2.
                     w2 = exec (snd (queue_tick env w)) evs
                     \<and> pops (snd (queue_tick env w)) evs = length (rest @ loaded)
                     \<and> filter is_dispatch (timers w2) \<noteq> [] \<longrightarrow>
                     (isInternetConnected w2 \<longrightarrow>
                        step w2 (QueueTick env2) =
                          sendLogToServer env2 e
                            (if lastInternetConnectedFlag w2 then w2\<lparr>logQueue := tl (logQueue w2)\<rparr>
                             else (loadLogFiles env2 (w2\<lparr>logQueue := tl (logQueue w2)\<rparr>))
                                    \<lparr>lastInternetConnectedFlag := True\<rparr>))
                     \<and> (\<not> isInternetConnected w2 \<longrightarrow>
                        step w2 (QueueTick env2) =
                          sendLogToFile env2 e
                            (w2\<lparr>logQueue := tl (logQueue w2), lastInternetConnectedFlag := False\<rparr>))))"
proof -
  let ?w' = "snd (queue_tick env w)"
  let ?w1 = "if lastInternetConnectedFlag w then w\<lparr>logQueue := rest\<rparr>
             else (loadLogFiles env (w\<lparr>logQueue := rest\<rparr>))\<lparr>lastInternetConnectedFlag := True\<rparr>"
  have t: "queue_tick env w = (Resolves (), sendLogToServer env e ?w1)"
    by (rule queue_tick_connected [OF assms(1-3)])
  obtain loaded where l: "logQueue ?w1 = rest @ loaded"
    using reload_grows [where w=w and rest=rest and env=env] unfolding grows_def by auto
  have q: "logQueue ?w' = (rest @ loaded) @ e # []"
    using t l sendLogToServer_queue [OF assms(4)] by simp
  have stay: "\<exists>post. logQueue (exec ?w' evs) = drop (pops ?w' evs) (rest @ loaded) @ e # post"
    if "pops ?w' evs \<le> length (rest @ loaded)" for evs
    by (rule stays_queued [OF q that])
  have route: "(isInternetConnected w2 \<longrightarrow>
                  step w2 (QueueTick env2) =
                    sendLogToServer env2 e
                      (if lastInternetConnectedFlag w2 then w2\<lparr>logQueue := tl (logQueue w2)\<rparr>
                       else (loadLogFiles env2 (w2\<lparr>logQueue := tl (logQueue w2)\<rparr>))
                              \<lparr>lastInternetConnectedFlag := True\<rparr>))
               \<and> (\<not> isInternetConnected w2 \<longrightarrow>
                  step w2 (QueueTick env2) =
                    sendLogToFile env2 e
                      (w2\<lparr>logQueue := tl (logQueue w2), lastInternetConnectedFlag := False\<rparr>))"
    if "w2 = exec ?w' evs \<and> pops ?w' evs = length (rest @ loaded)
        \<and> filter is_dispatch (timers w2) \<noteq> []" for evs env2 w2
  proof -
    have w2: "w2 = exec ?w' evs" and n: "pops ?w' evs = length (rest @ loaded)"
      and act: "filter is_dispatch (timers w2) \<noteq> []"
      using that by blast+
    have "pops ?w' evs \<le> length (rest @ loaded)" using n by simp
    from stay [OF this] obtain post where
      "logQueue (exec ?w' evs) = drop (pops ?w' evs) (rest @ loaded) @ e # post" ..
    then have "logQueue w2 = e # post" unfolding w2 n by simp
    from popping_tick [OF this assms(2) act, of env2] show ?thesis by blast
  qed
  have r: "fst (queue_tick env w) = Resolves ()" using t by simp
  have q': "logQueue ?w' = rest @ loaded @ [e]" using q by simp
  show ?thesis
    using r q' stay route by blast
qed

theorem failed_delivery_requeued_witness:
  "logQueue (exec fresh click_run) = click_event # []
   \<and> truthy click_event
   \<and> isInternetConnected (exec fresh click_run)
   \<and> request_fails failing
   \<and> fst (queue_tick failing (exec fresh click_run)) = Resolves ()
   \<and> logQueue requeued = [] @ [] @ [click_event]
   \<and> pops requeued scroll_run = length ([] @ [] :: jsval list)
   \<and> (\<exists>post. logQueue (exec requeued scroll_run)
                = drop (pops requeued scroll_run) ([] @ []) @ click_event # post)
   \<and> filter is_dispatch (timers (exec requeued scroll_run)) \<noteq> []
   \<and> isInternetConnected (exec requeued scroll_run)
   \<and> step (exec requeued scroll_run) (QueueTick calm) =
         sendLogToServer calm click_event
           (if lastInternetConnectedFlag (exec requeued scroll_run)
            then (exec requeued scroll_run)\<lparr>logQueue := tl (logQueue (exec requeued scroll_run))\<rparr>
            else (loadLogFiles calm
                    ((exec requeued scroll_run)\<lparr>logQueue := tl (logQueue (exec requeued scroll_run))\<rparr>))
                   \<lparr>lastInternetConnectedFlag := True\<rparr>)
   \<and> pops requeued unplug_run = length ([] @ [] :: jsval list)
   \<and> filter is_dispatch (timers (exec requeued unplug_run)) \<noteq> []
   \<and> \<not> isInternetConnected (exec requeued unplug_run)
   \<and> step (exec requeued unplug_run) (QueueTick calm) =
         sendLogToFile calm click_event
           ((exec requeued unplug_run)
              \<lparr>logQueue := tl (logQueue (exec requeued unplug_run)),
               lastInternetConnectedFlag := False\<rparr>)"
proof -
  have h1: "logQueue (exec fresh click_run) = click_event # []"
    using click_run_state by simp
  have h2: "truthy click_event" by (simp add: click_event_def)
  have h3: "isInternetConnected (exec fresh click_run)"
    using click_run_state by simp
  have h4: "request_fails failing" by (simp add: failing_def)
  from failed_delivery_requeued [OF h1 h2 h3 h4] obtain loaded where
    r: "fst (queue_tick failing (exec fresh click_run)) = Resolves ()"
    and q: "logQueue requeued = [] @ loaded @ [click_event]"
    and stay: "\<And>evs. pops requeued evs \<le> length ([] @ loaded) \<Longrightarrow>
                 \<exists>post. logQueue (exec requeued evs)
                          = drop (pops requeued evs) ([] @ loaded) @ click_event # post"
    and route: "\<And>evs env2 w2. w2 = exec requeued evs \<and> pops requeued evs = length ([] @ loaded)
                   \<and> filter is_dispatch (timers w2) \<noteq> [] \<Longrightarrow>
                 (isInternetConnected w2 \<longrightarrow>
                    step w2 (QueueTick env2) =
                      sendLogToServer env2 click_event
                        (if lastInternetConnectedFlag w2 then w2\<lparr>logQueue := tl (logQueue w2)\<rparr>
                         else (loadLogFiles env2 (w2\<lparr>logQueue := tl (logQueue w2)\<rparr>))
                                \<lparr>lastInternetConnectedFlag := True\<rparr>))
                 \<and> (\<not> isInternetConnected w2 \<longrightarrow>
                    step w2 (QueueTick env2) =
                      sendLogToFile env2 click_event
                        (w2\<lparr>logQueue := tl (logQueue w2), lastInternetConnectedFlag := False\<rparr>))"
    unfolding requeued_def by blast
  have e: "loaded = []" using q requeued_state by simp
  have s1: "\<exists>post. logQueue (exec requeued scroll_run)
                = drop (pops requeued scroll_run) ([] @ []) @ click_event # post"
    using stay [of scroll_run] requeued_state e by simp
  have r1: "step (exec requeued scroll_run) (QueueTick calm) =
         sendLogToServer calm click_event
           (if lastInternetConnectedFlag (exec requeued scroll_run)
            then (exec requeued scroll_run)\<lparr>logQueue := tl (logQueue (exec requeued scroll_run))\<rparr>
            else (loadLogFiles calm
                    ((exec requeued scroll_run)\<lparr>logQueue := tl (logQueue (exec requeued scroll_run))\<rparr>))
                   \<lparr>lastInternetConnectedFlag := True\<rparr>)"
    using route [of "exec requeued scroll_run" scroll_run calm] requeued_state e by simp
  have r2: "step (exec requeued unplug_run) (QueueTick calm) =
         sendLogToFile calm click_event
           ((exec requeued unplug_run)
              \<lparr>logQueue := tl (logQueue (exec requeued unplug_run)),
               lastInternetConnectedFlag := False\<rparr>)"
    using route [of "exec requeued unplug_run" unplug_run calm] requeued_state e by simp
  show ?thesis
    using h1 h2 h3 h4 r q e s1 r1 r2 requeued_state by simp
qed

text \<open>
  The flag of the last connectivity stays false as long as no firing of the dispatch timer
  has popped a value while connected.
\<close>

lemma flag_step:
  assumes "\<not> connected_pop w ev" "queue_truthy w" "\<not> lastInternetConnectedFlag w"
  shows "\<not> lastInternetConnectedFlag (step w ev)"
proof (cases ev)
  case (SetOptions x)
  then show ?thesis using assms by (auto simp: setOptions_def split: if_splits)
next
  case Run
  have "\<And>w1. run w = Inr w1 \<Longrightarrow> lastInternetConnectedFlag w1 = lastInternetConnectedFlag w"
    by (auto simp: run_def checkInternetConnected_def checkLoggerQueue_def setInterval_def
        stop_def clearInterval_def split: option.splits sum.splits if_splits)
  then show ?thesis using Run assms by (auto split: sum.splits)
next
  case Stop
  then show ?thesis using assms by (simp add: stop_def clearInterval_def split: option.splits)
next
  case (Log a v t)
  then show ?thesis using assms by (simp add: log_def split: option.splits)
next
  case (ConnectionTick p)
  then show ?thesis using assms by (auto simp: connection_tick_def split: settled.splits)
next
  case (QueueTick env)
  show ?thesis
  proof (cases "logQueue w")
    case Nil
    then show ?thesis using QueueTick assms by (simp add: queue_tick_def)
  next
    case (Cons e rest)
    show ?thesis
    proof (cases "filter is_dispatch (timers w) = []")
      case True
      then show ?thesis using QueueTick assms by simp
    next
      case False
      then have off: "\<not> isInternetConnected w"
        using assms(1) QueueTick Cons by simp
      have te: "truthy e" using assms(2) Cons by (simp add: queue_truthy_def)
      have "logger_frame (w\<lparr>logQueue := rest, lastInternetConnectedFlag := False\<rparr>)
              (sendLogToFile env e (w\<lparr>logQueue := rest, lastInternetConnectedFlag := False\<rparr>))"
        by (rule frame_sendLogToFile)
      then show ?thesis
        using QueueTick False queue_tick_offline [OF Cons te off, of env]
        by (simp add: logger_frame_def)
    qed
  qed
qed

lemma flag_before_first:
  "before_first connected_pop w evs \<Longrightarrow> queue_truthy w \<Longrightarrow> \<not> lastInternetConnectedFlag w
   \<Longrightarrow> \<not> lastInternetConnectedFlag (exec w evs)"
proof (induction evs arbitrary: w)
  case Nil
  then show ?case by (simp add: exec_def)
next
  case (Cons ev evs)
  have "\<not> lastInternetConnectedFlag (exec (step w ev) evs)"
    using Cons.IH [of "step w ev"] Cons.prems flag_step [of w ev] queue_truthy_step [of w ev]
    by simp
  then show ?case by (simp add: exec_def)
qed

text \<open>
  Claim C9: the flag of the last connectivity starts as false, so in a run from the initial
  state, the first firing of the dispatch timer that pops an event while the cached
  connectivity flag is true reloads the backlog, sets the flag, and only then sends the event:
  the request is made in the state that \<^verbatim>\<open>loadLogFiles\<close> has left. Whether the connectivity was
  ever seen down before plays no role.
\<close>

theorem first_connected_pop_reloads:
  assumes "before_first connected_pop (initial os disk) evs"
    and "logQueue (exec (initial os disk) evs) = e # rest"
    and "isInternetConnected (exec (initial os disk) evs)"
  shows "queue_tick env (exec (initial os disk) evs) =
           (Resolves (),
            sendLogToServer env e
              ((loadLogFiles env ((exec (initial os disk) evs)\<lparr>logQueue := rest\<rparr>))
                 \<lparr>lastInternetConnectedFlag := True\<rparr>))"
proof -
  let ?w = "exec (initial os disk) evs"
  have q: "queue_truthy ?w" by (rule queue_truthy_exec [OF queue_truthy_initial])
  then have te: "truthy e" using assms(2) by (simp add: queue_truthy_def)
  have "\<not> lastInternetConnectedFlag ?w"
    by (rule flag_before_first [OF assms(1) queue_truthy_initial]) (simp add: initial_def)
  then show ?thesis using queue_tick_connected [OF assms(2) te assms(3), of env] by simp
qed

theorem first_connected_pop_reloads_witness:
  "before_first connected_pop (initial ''Linux'' no_disk) click_run
   \<and> logQueue (exec (initial ''Linux'' no_disk) click_run) = click_event # []
   \<and> isInternetConnected (exec (initial ''Linux'' no_disk) click_run)
   \<and> queue_tick calm (exec (initial ''Linux'' no_disk) click_run) =
           (Resolves (),
            sendLogToServer calm click_event
              ((loadLogFiles calm ((exec (initial ''Linux'' no_disk) click_run)\<lparr>logQueue := []\<rparr>))
                 \<lparr>lastInternetConnectedFlag := True\<rparr>))"
proof -
  have h1: "before_first connected_pop (initial ''Linux'' no_disk) click_run"
    by (simp add: logger_defs tick_defs)
  have h2: "logQueue (exec (initial ''Linux'' no_disk) click_run) = click_event # []"
    using click_run_state by (simp add: fresh_def)
  have h3: "isInternetConnected (exec (initial ''Linux'' no_disk) click_run)"
    using click_run_state by (simp add: fresh_def)
  show ?thesis
    using h1 h2 h3 first_connected_pop_reloads [OF h1 h2 h3] by blast
qed

text \<open>
  As long as no probe result has been stored, the cached connectivity flag is true and no
  file has been written.
\<close>

lemma connected_step:
  assumes "\<not> stores_probe ev" "isInternetConnected w" "queue_truthy w" "no_write w"
  shows "isInternetConnected (step w ev) \<and> no_write (step w ev)"
proof (cases ev)
  case (SetOptions x)
  then show ?thesis using assms by (auto simp: setOptions_def no_write_def split: if_splits)
next
  case Run
  have "\<And>w1. run w = Inr w1 \<Longrightarrow> isInternetConnected w1 = isInternetConnected w \<and> trace w1 = trace w"
    by (auto simp: run_def checkInternetConnected_def checkLoggerQueue_def setInterval_def
        stop_def clearInterval_def split: option.splits sum.splits if_splits)
  then show ?thesis using Run assms by (auto simp: no_write_def split: sum.splits)
next
  case Stop
  then show ?thesis using assms by (simp add: stop_def clearInterval_def no_write_def split: option.splits)
next
  case (Log a v t)
  then show ?thesis using assms by (simp add: log_def no_write_def split: option.splits)
next
  case (ConnectionTick p)
  then show ?thesis using assms
    by (cases p) (auto simp: connection_tick_def no_write_def)
next
  case (QueueTick env)
  show ?thesis
  proof (cases "logQueue w")
    case Nil
    then show ?thesis using QueueTick assms by (simp add: queue_tick_def)
  next
    case (Cons e rest)
    have te: "truthy e" using assms(3) Cons by (simp add: queue_truthy_def)
    have "grows (w\<lparr>logQueue := rest\<rparr>) (snd (queue_tick env w))"
      by (rule queue_tick_connected_grows [OF Cons te assms(2)])
    moreover have "no_write (w\<lparr>logQueue := rest\<rparr>)" using assms(4) by (simp add: no_write_def)
    ultimately have "no_write (snd (queue_tick env w))" by (rule grows_no_write)
    then show ?thesis using QueueTick assms frame_queue_tick [of env w] by simp
  qed
qed

lemma connected_exec:
  "\<forall>ev \<in> set evs. \<not> stores_probe ev \<Longrightarrow> isInternetConnected w \<Longrightarrow> queue_truthy w \<Longrightarrow> no_write w
   \<Longrightarrow> isInternetConnected (exec w evs) \<and> no_write (exec w evs)"
proof (induction evs arbitrary: w)
  case Nil
  then show ?case by (simp add: exec_def)
next
  case (Cons ev evs)
  have s: "isInternetConnected (step w ev) \<and> no_write (step w ev)"
    using connected_step [of ev w] Cons.prems by simp
  have "isInternetConnected (exec (step w ev) evs) \<and> no_write (exec (step w ev) evs)"
    using Cons.IH [of "step w ev"] Cons.prems s queue_truthy_step [of w ev] by simp
  then show ?case by (simp add: exec_def)
qed

text \<open>
  Claim C10: the cached connectivity flag starts as true. In a run from the initial state in
  which no firing of the connectivity timer has stored a probe result yet, the flag is still
  true, no backlog file has been written, and a firing of the dispatch timer that pops an
  event hands it to \<^verbatim>\<open>sendLogToServer\<close>.
\<close>

theorem before_first_probe_no_disk:
  assumes "\<forall>ev \<in> set evs. \<not> stores_probe ev"
  shows "isInternetConnected (exec (initial os disk) evs)
         \<and> (\<forall>d n c. WriteFile d n c \<notin> set (trace (exec (initial os disk) evs)))
         \<and> (\<forall>e rest env. logQueue (exec (initial os disk) evs) = e # rest \<longrightarrow>
               (\<exists>w1. queue_tick env (exec (initial os disk) evs) = (Resolves (), sendLogToServer env e w1)))"
proof -
  let ?w = "exec (initial os disk) evs"
  have i: "isInternetConnected ?w \<and> no_write ?w"
    by (rule connected_exec [OF assms _ queue_truthy_initial]) (simp_all add: initial_def no_write_def)
  have q: "queue_truthy ?w" by (rule queue_truthy_exec [OF queue_truthy_initial])
  have w: "\<forall>d n c. WriteFile d n c \<notin> set (trace ?w)"
    using i by (auto simp: no_write_def list_all_iff)
  have "\<And>e rest env. logQueue ?w = e # rest \<Longrightarrow>
          \<exists>w1. queue_tick env ?w = (Resolves (), sendLogToServer env e w1)"
  proof -
    fix e rest env
    assume l: "logQueue ?w = e # rest"
    then have te: "truthy e" using q by (simp add: queue_truthy_def)
    show "\<exists>w1. queue_tick env ?w = (Resolves (), sendLogToServer env e w1)"
      using queue_tick_connected [OF l te, of env] i by blast
  qed
  then show ?thesis using i w by blast
qed

theorem before_first_probe_no_disk_witness:
  "list_all (\<lambda>ev. \<not> stores_probe ev) click_run
   \<and> logQueue (exec (initial ''Linux'' no_disk) click_run) = click_event # []
   \<and> isInternetConnected (exec (initial ''Linux'' no_disk) click_run)
   \<and> (\<exists>w1. queue_tick calm (exec (initial ''Linux'' no_disk) click_run)
               = (Resolves (), sendLogToServer calm click_event w1))"
proof -
  have h1: "\<forall>ev \<in> set click_run. \<not> stores_probe ev"
    by (simp add: click_run_def)
  have h2: "logQueue (exec (initial ''Linux'' no_disk) click_run) = click_event # []"
    using click_run_state by (simp add: fresh_def)
  have c: "isInternetConnected (exec (initial ''Linux'' no_disk) click_run)
           \<and> (\<exists>w1. queue_tick calm (exec (initial ''Linux'' no_disk) click_run)
                      = (Resolves (), sendLogToServer calm click_event w1))"
    using before_first_probe_no_disk [OF h1, of "''Linux''" no_disk] h2 by blast
  show ?thesis
    using c h1 h2 by (simp add: list_all_iff)
qed

subsection \<open>The backlog\<close>

lemma hexdigit_not_dot: "n < 16 \<Longrightarrow> hexdigit n \<noteq> CHR ''.''"
proof -
  assume n: "n < 16"
  have "(of_char (hexdigit n) :: nat) \<noteq> of_char (CHR ''.'')"
    using n by (simp add: hexdigit_def)
  then show ?thesis by auto
qed

lemma hex_no_dot: "CHR ''.'' \<notin> set (hex bytes)"
proof -
  have hi: "hexdigit ((of_char c :: nat) div 16) \<noteq> CHR ''.''" for c :: char
  proof -
    have "(of_char c :: nat) < 256" by simp
    then have "(of_char c :: nat) div 16 < 16" by arith
    then show ?thesis by (rule hexdigit_not_dot)
  qed
  have lo: "hexdigit ((of_char c :: nat) mod 16) \<noteq> CHR ''.''" for c :: char
    by (rule hexdigit_not_dot) simp
  show ?thesis
  proof
    assume "CHR ''.'' \<in> set (hex bytes)"
    then obtain c where "CHR ''.'' = hexdigit (of_char c div 16) \<or> CHR ''.'' = hexdigit (of_char c mod 16)"
      by (auto simp: hex_def)
    then show False using hi [of c] lo [of c] by auto
  qed
qed

lemma hex_not_empty: "bytes \<noteq> [] \<Longrightarrow> hex bytes \<noteq> []"
  by (cases bytes) (simp_all add: hex_def)

lemma extname_log_file:
  assumes "h \<noteq> []" "CHR ''.'' \<notin> set h"
  shows "toLowerCase (extname (h @ LOG_EXTENSION)) = LOG_EXTENSION"
proof -
  have r: "rev (h @ ''.ehl'') = ''lhe.'' @ rev h" by simp
  have d: "dropWhile (\<lambda>c. c \<noteq> CHR ''.'') (rev (h @ ''.ehl'')) = CHR ''.'' # rev h"
    unfolding r by simp
  have t: "takeWhile (\<lambda>c. c \<noteq> CHR ''.'') (rev (h @ ''.ehl'')) = ''lhe''"
    unfolding r by simp
  have n: "h @ ''.ehl'' \<noteq> ''..''"
  proof
    assume "h @ ''.ehl'' = ''..''"
    then have "length (h @ ''.ehl'') = length ''..''" by simp
    then show False by simp
  qed
  have "extname (h @ ''.ehl'') = ''.ehl''"
    unfolding extname_def d t using assms(1) n by simp
  then show ?thesis by (simp add: LOG_EXTENSION_def toLowerCase_def)
qed

lemma string_members:
  "list_all (\<lambda>kv. is_string (snd kv)) attrs \<Longrightarrow> json_members attrs = attrs \<and> wf_members attrs"
proof (induction attrs)
  case Nil
  then show ?case by simp
next
  case (Cons kv attrs)
  obtain k v where kv: "kv = (k, v)" by (cases kv)
  then obtain s where "v = JStr s" using Cons.prems by (cases v) auto
  then show ?case using Cons kv by simp
qed

lemma attributes_image: "attributes val \<Longrightarrow> well_formed val \<and> json_image val = val"
  by (cases val) (auto simp: string_members)

lemma event_image:
  assumes "attributes val"
  shows "well_formed (JObj [(''action'', JStr a), (''value'', val), (''date'', JNum t), (''osType'', JStr os)])"
    and "get_prop (json_image (JObj [(''action'', JStr a), (''value'', val), (''date'', JNum t),
                                     (''osType'', JStr os)])) k
         = get_prop (JObj [(''action'', JStr a), (''value'', val), (''date'', JNum t),
                           (''osType'', JStr os)]) k"
  using attributes_image [OF assms] by (auto simp: obj_get_def)

lemma log_pushes_event:
  assumes "options w \<noteq> None" "defaultLoggerInfo w = [(''osType'', JStr os)]"
  shows "logQueue (log action val t w) = logQueue w @ [event_object action val t os]"
  using assms by (auto simp: log_def event_object_def obj_assign_def)

text \<open>What a step of one callback does to the files of the other callbacks.\<close>

lemma map_of_filter_other:
  "name \<noteq> n \<Longrightarrow> map_of (filter (\<lambda>e. fst e \<noteq> n) es) name = map_of es name"
  by (induction es) auto

lemma fs_unexpected: "fs (unexpected env e w) = fs w"
  by (simp add: unexpected_def console_error_def record_io_def log_def split: option.splits)

lemma fs_readFile: "readFile d n w = Inr (c, w1) \<Longrightarrow> fs w1 = fs w"
  by (auto simp: readFile_def record_io_def split: node.splits option.splits entry.splits)

lemma holds_file_queue: "holds_file d name text (w\<lparr>logQueue := q\<rparr>) = holds_file d name text w"
  by (simp add: holds_file_def)

lemma holds_file_unlink:
  assumes "holds_file d name text w" "n \<noteq> name" "unlink d n w = Inr w1"
  shows "holds_file d name text w1"
proof -
  obtain es where es: "fs w d = Dir es" "map_of es name = Some (File text)"
    using assms(1) unfolding holds_file_def by blast
  have "fs w1 d = Dir (filter (\<lambda>e. fst e \<noteq> n) es)"
    using assms(3) es(1)
    by (auto simp: unlink_def record_io_def split: option.splits entry.splits)
  then show ?thesis
    using es(2) map_of_filter_other [of name n es] assms(2) unfolding holds_file_def by auto
qed

lemma sendLogToFile_written:
  assumes "option_get w ''logPath'' = Some (JStr d)" "fs w d = Dir es"
    and "hex (random_bytes env) @ LOG_EXTENSION \<notin> fst ` set es"
    and "JSON_stringify e = Some text"
  shows "sendLogToFile env e w
         = record_io (WriteFile d (hex (random_bytes env) @ LOG_EXTENSION) text)
             (w\<lparr>fs := (fs w)(d := Dir (es @ [(hex (random_bytes env) @ LOG_EXTENSION, File text)]))\<rparr>)"
proof -
  have "map_of es (hex (random_bytes env) @ LOG_EXTENSION) = None"
    using assms(3) by (simp add: map_of_eq_None_iff)
  then show ?thesis
    using assms(1,2,4) by (simp add: sendLogToFile_def writeFile_def Let_def)
qed

lemma option_get_frame: "logger_frame w w' \<Longrightarrow> option_get w' k = option_get w k"
  by (auto simp: option_get_def logger_frame_def split: option.splits obj_ref.splits)

lemma grows_member: "grows w w' \<Longrightarrow> v \<in> set (logQueue w) \<Longrightarrow> v \<in> set (logQueue w')"
  by (auto simp: grows_def)

lemma fs_read_done: "fs (fst (read_done env d n w)) = fs w"
proof (cases "readFile d n w")
  case (Inl e)
  then show ?thesis by (simp add: read_done_def fs_unexpected)
next
  case (Inr cw)
  obtain c w1 where cw: "cw = (c, w1)" by (cases cw)
  have "fs w1 = fs w" using fs_readFile Inr cw by blast
  then show ?thesis using Inr cw
    by (cases "JSON_parse c") (simp_all add: read_done_def fs_unexpected)
qed

lemma read_done_next: "snd (read_done env d n w) = [] \<or> snd (read_done env d n w) = [Unlinking n]"
  by (auto simp: read_done_def split: sum.splits option.splits)

lemma read_done_held:
  assumes "holds_file d name text w" "JSON_parse text = Some v" "truthy v"
  shows "snd (read_done env d name w) = [Unlinking name]
         \<and> v \<in> set (logQueue (fst (read_done env d name w)))"
proof -
  obtain es where es: "fs w d = Dir es" "map_of es name = Some (File text)"
    using assms(1) unfolding holds_file_def by blast
  have "readFile d name w = Inr (text, record_io (ReadFile d name) w)"
    using es by (simp add: readFile_def)
  then show ?thesis using assms(2,3) by (simp add: read_done_def record_io_def)
qed

lemma holds_file_fs: "fs w' = fs w \<Longrightarrow> holds_file d name text w \<Longrightarrow> holds_file d name text w'"
  by (simp add: holds_file_def)

lemma gone_fs: "fs w' = fs w \<Longrightarrow> gone d name w \<Longrightarrow> gone d name w'"
  by (simp add: gone_def)

lemma holds_file_unlink_done:
  assumes "holds_file d name text w" "n \<noteq> name"
  shows "holds_file d name text (unlink_done env d n w)"
proof (cases "unlink d n w")
  case (Inl e)
  then show ?thesis using holds_file_fs [OF fs_unexpected assms(1)] by (simp add: unlink_done_def)
next
  case (Inr w1)
  then show ?thesis using holds_file_unlink [OF assms Inr] by (simp add: unlink_done_def)
qed

lemma gone_unlink_done:
  assumes "gone d name w"
  shows "gone d name (unlink_done env d n w)"
proof (cases "unlink d n w")
  case (Inl e)
  then show ?thesis using gone_fs [OF fs_unexpected assms] by (simp add: unlink_done_def)
next
  case (Inr w1)
  obtain es where es: "fs w d = Dir es" "name \<notin> fst ` set es"
    using assms unfolding gone_def by blast
  have "fs w1 d = Dir (filter (\<lambda>e. fst e \<noteq> n) es)"
    using Inr es(1) by (auto simp: unlink_def record_io_def split: option.splits entry.splits)
  then show ?thesis using Inr es(2) by (auto simp: unlink_done_def gone_def)
qed

lemma unlink_done_held:
  assumes "holds_file d name text w"
  shows "gone d name (unlink_done env d name w)"
proof -
  obtain es where es: "fs w d = Dir es" "map_of es name = Some (File text)"
    using assms unfolding holds_file_def by blast
  have "unlink d name w
        = Inr (record_io (Unlink d name) (w\<lparr>fs := (fs w)(d := Dir (filter (\<lambda>e. fst e \<noteq> name) es))\<rparr>))"
    using es by (simp add: unlink_def)
  then show ?thesis by (auto simp: unlink_done_def gone_def record_io_def)
qed

lemma count_list_replace:
  assumes "i < length ps"
  shows "count_list (take i ps @ new @ drop (Suc i) ps) x + (if ps ! i = x then 1 else 0)
         = count_list ps x + count_list new x"
proof -
  have "count_list ps x = count_list (take i ps @ ps ! i # drop (Suc i) ps) x"
    using id_take_nth_drop [OF assms] by simp
  then show ?thesis by simp
qed

text \<open>
  In whatever order the callbacks go on, a backlog file that parses to a truthy value is
  gone when \<^verbatim>\<open>loadLogFiles\<close> returns, and its value is in the queue.
\<close>

lemma tracked_step:
  assumes i: "i < length ps" and t: "tracked d name text v ps w"
    and parse: "JSON_parse text = Some v" and tv: "truthy v"
  shows "tracked d name text v (take i ps @ snd (resume env d (ps ! i) w) @ drop (Suc i) ps)
           (fst (resume env d (ps ! i) w))"
proof -
  let ?new = "snd (resume env d (ps ! i) w)"
  let ?w' = "fst (resume env d (ps ! i) w)"
  let ?ps' = "take i ps @ ?new @ drop (Suc i) ps"
  note c = count_list_replace [OF i, of ?new]
  have mem: "v \<in> set (logQueue w) \<Longrightarrow> v \<in> set (logQueue ?w')"
    using grows_member [OF grows_resume] .
  show ?thesis
  proof (cases "ps ! i")
    case (Reading n)
    have fs: "fs ?w' = fs w" using Reading by (simp add: fs_read_done)
    show ?thesis
    proof (cases "n = name")
      case True
      have "0 < count_list ps (Reading name)"
        using i Reading True by (metis count_list_0_iff nth_mem not_gr_zero)
      then have p1: "count_list ps (Reading name) = 1" "count_list ps (Unlinking name) = 0"
        "holds_file d name text w"
        using t unfolding tracked_def by auto
      have n: "?new = [Unlinking name]" "v \<in> set (logQueue ?w')"
        using read_done_held [OF p1(3) parse tv, of env] Reading True by simp_all
      have "count_list ?ps' (Reading name) = 0" "count_list ?ps' (Unlinking name) = 1"
        using c [of "Reading name"] c [of "Unlinking name"] p1 n(1) Reading True by simp_all
      then show ?thesis
        using n(2) holds_file_fs [OF fs p1(3)] unfolding tracked_def by simp
    next
      case False
      have "?new = [] \<or> ?new = [Unlinking n]"
        using read_done_next [of env d n w] Reading by simp
      then have "count_list ?new (Reading name) = 0" "count_list ?new (Unlinking name) = 0"
        using False by auto
      then have "count_list ?ps' (Reading name) = count_list ps (Reading name)"
        "count_list ?ps' (Unlinking name) = count_list ps (Unlinking name)"
        using c [of "Reading name"] c [of "Unlinking name"] Reading False by simp_all
      moreover have "holds_file d name text w \<Longrightarrow> holds_file d name text ?w'"
        by (rule holds_file_fs [OF fs])
      moreover have "gone d name w \<Longrightarrow> gone d name ?w'"
        by (rule gone_fs [OF fs])
      ultimately show ?thesis using t mem unfolding tracked_def by auto
    qed
  next
    case (Unlinking n)
    have new: "?new = []" and w': "?w' = unlink_done env d n w" using Unlinking by simp_all
    show ?thesis
    proof (cases "n = name")
      case True
      have "0 < count_list ps (Unlinking name)"
        using i Unlinking True by (metis count_list_0_iff nth_mem not_gr_zero)
      then have p2: "count_list ps (Reading name) = 0" "count_list ps (Unlinking name) = 1"
        "holds_file d name text w" "v \<in> set (logQueue w)"
        using t unfolding tracked_def by auto
      have "count_list ?ps' (Reading name) = 0" "count_list ?ps' (Unlinking name) = 0"
        using c [of "Reading name"] c [of "Unlinking name"] p2 new Unlinking True by simp_all
      moreover have "gone d name ?w'"
        using unlink_done_held [OF p2(3), of env] w' True by simp
      ultimately show ?thesis using mem [OF p2(4)] unfolding tracked_def by simp
    next
      case False
      have "count_list ?ps' (Reading name) = count_list ps (Reading name)"
        "count_list ?ps' (Unlinking name) = count_list ps (Unlinking name)"
        using c [of "Reading name"] c [of "Unlinking name"] new Unlinking False by simp_all
      moreover have "holds_file d name text w \<Longrightarrow> holds_file d name text ?w'"
        using holds_file_unlink_done [OF _ False, of d "text" w env] w' by simp
      moreover have "gone d name w \<Longrightarrow> gone d name ?w'"
        using gone_unlink_done [of d name w env n] w' by simp
      ultimately show ?thesis using t mem unfolding tracked_def by auto
    qed
  qed
qed

lemma tracked_run:
  "tracked d name text v ps w \<Longrightarrow> JSON_parse text = Some v \<Longrightarrow> truthy v
   \<Longrightarrow> gone d name (run_callbacks env d picks ps w)
       \<and> v \<in> set (logQueue (run_callbacks env d picks ps w))"
proof (induction env d picks ps w rule: run_callbacks.induct)
  case (1 env d picks ps w)
  show ?case
  proof (cases "ps = []")
    case True
    then show ?thesis using "1.prems"(1)
      by (subst (1 2) run_callbacks.simps) (simp add: tracked_def)
  next
    case False
    then have i: "next_pick picks mod length ps < length ps" by simp
    from "1.IH" [OF False tracked_step [OF i "1.prems"(1,2,3)] "1.prems"(2,3)]
    show ?thesis using False by (subst (1 2) run_callbacks.simps) simp
  qed
qed

lemma loadLogFiles_reloads:
  assumes path: "option_get w ''logPath'' = Some (JStr d)"
    and dir: "fs w d = Dir (es @ [(name, File text)])"
    and fresh: "name \<notin> fst ` set es"
    and ext: "toLowerCase (extname name) = LOG_EXTENSION"
    and parse: "JSON_parse text = Some v" and tv: "truthy v"
  shows "gone d name (loadLogFiles env w) \<and> v \<in> set (logQueue (loadLogFiles env w))"
proof -
  let ?w2 = "record_io (Readdir d) (record_io (EnsureDir d) w)"
  let ?P = "\<lambda>fileName. toLowerCase (extname fileName) = LOG_EXTENSION"
  let ?ps = "map Reading (filter ?P (map fst es)) @ [Reading name]"
  have e: "ensureDir d w = Inr (record_io (EnsureDir d) w)"
    using dir by (simp add: ensureDir_def)
  have r: "readdir d (record_io (EnsureDir d) w) = Inr (map fst es @ [name], ?w2)"
    using dir by (simp add: readdir_def record_io_def)
  have l: "loadLogFiles env w = run_callbacks env d (schedule env) ?ps ?w2"
    using path e r ext by (simp add: loadLogFiles_def)
  have "map_of es name = None" using fresh by (simp add: map_of_eq_None_iff)
  then have h0: "holds_file d name text ?w2"
    using dir by (simp add: holds_file_def record_io_def map_add_def)
  have "Reading name \<notin> set (map Reading (filter ?P (map fst es)))"
    using fresh by auto
  then have c1: "count_list ?ps (Reading name) = 1" by simp
  have "Unlinking name \<notin> set ?ps" by auto
  then have c2: "count_list ?ps (Unlinking name) = 0" by (simp only: count_list_0_iff not_False_eq_True)
  have "tracked d name text v ?ps ?w2"
    unfolding tracked_def using c1 c2 h0 by simp
  from tracked_run [OF this parse tv] show ?thesis unfolding l .
qed

text \<open>
  Claim C8 says that every event round-trips through a backlog file. The logger's own event
  for a backlog file that does not parse (it is the first in the queue after \<^verbatim>\<open>loadLogFiles\<close>
  on such a directory) holds the \<^verbatim>\<open>SyntaxError\<close> as an attribute. Written by
  \<^verbatim>\<open>sendLogToFile\<close> and reloaded, it comes back with an empty object in that place: the
  reloaded event is not the original.
\<close>

theorem error_event_counterexample:
  "hd (logQueue (loadLogFiles calm poisoned)) = error_event
   \<and> logQueue (loadLogFiles calm (sendLogToFile calm error_event empty_backlog)) = [reloaded_error_event]
   \<and> reloaded_error_event \<noteq> error_event
   \<and> get_prop (get_prop error_event ''value'') ''error'' = JErr ''SyntaxError'' []
   \<and> get_prop (get_prop reloaded_error_event ''value'') ''error'' = JObj []"
  by code_simp

text \<open>
  Claim C8 as amended: an event as \<^verbatim>\<open>log\<close> builds it whose attributes are of the declared
  type (none, or strings under distinct keys) is written by \<^verbatim>\<open>sendLogToFile\<close> to a new file
  of the backlog directory; the content of that file parses to an event with the same
  action, date, attributes and operating system (every property reads the same as in the
  original); and \<^verbatim>\<open>loadLogFiles\<close>, in whatever order its file operations complete, pushes
  that event on the queue and removes the file.
\<close>

theorem backlog_round_trip:
  assumes "attributes val"
    and "option_get w ''logPath'' = Some (JStr d)"
    and "fs w d = Dir es"
    and "backlog_name env \<notin> fst ` set es"
    and "random_bytes env \<noteq> []"
  shows "\<exists>text e' es'.
           fs (sendLogToFile env (event_object action val t os) w) d
             = Dir (es @ [(backlog_name env, File text)])
           \<and> JSON_parse text = Some e'
           \<and> (\<forall>k. get_prop e' k = get_prop (event_object action val t os) k)
           \<and> e' \<in> set (logQueue (loadLogFiles env' (sendLogToFile env (event_object action val t os) w)))
           \<and> fs (loadLogFiles env' (sendLogToFile env (event_object action val t os) w)) d = Dir es'
           \<and> backlog_name env \<notin> fst ` set es'"
proof -
  let ?e = "event_object action val t os"
  obtain content where content: "JSON_stringify ?e = Some content"
    by (simp add: event_object_def)
  have wf: "well_formed ?e"
    unfolding event_object_def by (rule event_image(1) [OF assms(1)])
  have parse: "JSON_parse content = Some (json_image ?e)"
    by (rule JSON_round_trip [OF content wf])
  have same: "\<forall>k. get_prop (json_image ?e) k = get_prop ?e k"
    unfolding event_object_def using event_image(2) [OF assms(1)] by blast
  have tv: "truthy (json_image ?e)" by (simp add: event_object_def)
  let ?w1 = "sendLogToFile env ?e w"
  have w1: "?w1 = record_io (WriteFile d (backlog_name env) content)
                    (w\<lparr>fs := (fs w)(d := Dir (es @ [(backlog_name env, File content)]))\<rparr>)"
    using sendLogToFile_written [OF assms(2,3) _ content] assms(4) by (simp add: backlog_name_def)
  have path1: "option_get ?w1 ''logPath'' = Some (JStr d)"
    using assms(2) option_get_frame [OF frame_sendLogToFile [of w env ?e]] by simp
  have dir1: "fs ?w1 d = Dir (es @ [(backlog_name env, File content)])"
    unfolding w1 by (simp add: record_io_def)
  have ext: "toLowerCase (extname (backlog_name env)) = LOG_EXTENSION"
    unfolding backlog_name_def
    by (rule extname_log_file [OF hex_not_empty [OF assms(5)] hex_no_dot])
  from loadLogFiles_reloads [OF path1 dir1 assms(4) ext parse tv, of env']
  obtain es' where "fs (loadLogFiles env' ?w1) d = Dir es'" "backlog_name env \<notin> fst ` set es'"
    and "json_image ?e \<in> set (logQueue (loadLogFiles env' ?w1))"
    unfolding gone_def by blast
  then show ?thesis using dir1 parse same by blast
qed

theorem backlog_round_trip_witness:
  "attributes (JObj [(''id'', JStr ''7'')])
   \<and> option_get offline ''logPath'' = Some (JStr ''/tmp/x'')
   \<and> fs offline ''/tmp/x'' = Dir [(''old.ehl'', File ''{'')]
   \<and> backlog_name calm \<notin> fst ` set [(''old.ehl'', File ''{'')]
   \<and> random_bytes calm \<noteq> []
   \<and> (\<exists>text e' es'.
           fs (sendLogToFile calm (event_object ''click'' (JObj [(''id'', JStr ''7'')]) 1700 ''Linux'') offline) ''/tmp/x''
             = Dir ([(''old.ehl'', File ''{'')] @ [(backlog_name calm, File text)])
           \<and> JSON_parse text = Some e'
           \<and> (\<forall>k. get_prop e' k = get_prop (event_object ''click'' (JObj [(''id'', JStr ''7'')]) 1700 ''Linux'') k)
           \<and> e' \<in> set (logQueue (loadLogFiles shuffled (sendLogToFile calm (event_object ''click'' (JObj [(''id'', JStr ''7'')]) 1700 ''Linux'') offline)))
           \<and> fs (loadLogFiles shuffled (sendLogToFile calm (event_object ''click'' (JObj [(''id'', JStr ''7'')]) 1700 ''Linux'') offline)) ''/tmp/x'' = Dir es'
           \<and> backlog_name calm \<notin> fst ` set es')"
proof -
  have h1: "attributes (JObj [(''id'', JStr ''7'')])" by simp
  have h2: "option_get offline ''logPath'' = Some (JStr ''/tmp/x'')"
    by (simp add: offline_def logger_defs)
  have h3: "fs offline ''/tmp/x'' = Dir [(''old.ehl'', File ''{'')]"
    by (simp add: offline_def logger_defs)
  have h4: "backlog_name calm \<notin> fst ` set [(''old.ehl'', File ''{'')]"
    by (simp add: backlog_name_def calm_def hex_def hexdigit_def LOG_EXTENSION_def)
  have h5: "random_bytes calm \<noteq> []" by (simp add: calm_def)
  show ?thesis
    using h1 h2 h3 h4 h5 backlog_round_trip [OF h1 h2 h3 h4 h5] by blast
qed

text \<open>
  Claim C1, on a backlog directory with a file that does not parse, a file that cannot be
  read, and a good file. The failures are isolated: the good file is loaded and removed. But
  the two failing files are still in the directory after \<^verbatim>\<open>loadLogFiles\<close>, because
  \<^verbatim>\<open>unlink\<close> is inside the \<^verbatim>\<open>try\<close>, after the read and the parse; a second
  \<^verbatim>\<open>loadLogFiles\<close> processes them again and logs two more \<^verbatim>\<open>unexpected\<close> events.
\<close>

theorem corrupt_file_stays:
  "fs (loadLogFiles calm poisoned) ''/tmp/x''
     = Dir [(''bad.ehl'', File ''{''), (''locked.ehl'', Locked), (''notes.txt'', File ''{'')]
   \<and> map (\<lambda>v. get_prop v ''action'') (logQueue (loadLogFiles calm poisoned))
        = [JStr ''unexpected'', JStr ''unexpected'', JStr ''boot'']
   \<and> fs (loadLogFiles calm (loadLogFiles calm poisoned)) ''/tmp/x''
        = Dir [(''bad.ehl'', File ''{''), (''locked.ehl'', Locked), (''notes.txt'', File ''{'')]
   \<and> map (\<lambda>v. get_prop v ''action'') (logQueue (loadLogFiles calm (loadLogFiles calm poisoned)))
        = [JStr ''unexpected'', JStr ''unexpected'', JStr ''boot'', JStr ''unexpected'', JStr ''unexpected'']"
  by code_simp

end
